theory Spec2Isabelle
  imports Main "HOL-Library.Char_ord" "HOL-Library.List_Lexorder"
begin

section \<open>Cursor pagination of the orders and products list endpoints\<close>

text \<open>
  The development follows \<^verbatim>\<open>src/resolvers/orders.ts\<close> and the products resolver that
  is stored with it: the two \<^verbatim>\<open>router.get("/")\<close> handlers, the record store they
  query through mongoose, and the cursor codec they import from
  \<^verbatim>\<open>../utils/pagination\<close>.

  Strings are lists of 8-bit code units. Query parameters are an optional string each
  (\<^verbatim>\<open>undefined\<close> is \<open>None\<close>); array- and object-valued query parameters are outside
  the model.
\<close>

subsection \<open>Errors thrown inside the handlers\<close>

datatype error = InvalidCursor | StoreQueryFailed | RegExpSyntaxError

subsection \<open>Ordering keys\<close>

text \<open>
  The ordering key is the document's \<^verbatim>\<open>_id\<close>, a mongoose ObjectId. The handlers only
  use its string form (\<^verbatim>\<open>r.id.toString()\<close>, 24 lower-case hexadecimal digits) and its
  order; ObjectIds compare bytewise, which on the string form is the lexicographic order
  of \<^typ>\<open>string\<close>.
\<close>

type_synonym ObjectId = string

definition is_hex_digit :: "char \<Rightarrow> bool" where
  "is_hex_digit c = (c \<in> set ''0123456789abcdef'')"

definition is_object_id :: "string \<Rightarrow> bool" where
  "is_object_id s = (length s = 24 \<and> list_all is_hex_digit s)"

subsection \<open>Cursor codec\<close>

text \<open>
  Modelled from the spec: \<^verbatim>\<open>encodeCursor\<close> and \<^verbatim>\<open>decodeCursor\<close> of
  \<^verbatim>\<open>src/utils/pagination\<close>, which the resolvers import and which is not among the
  source files. The spec asks for a deterministic reversible encoding, "e.g. base64 of
  the key's string form", and a decoder that fails with InvalidCursor on input that is
  not a well-formed encoding of an ordering key (wrong alphabet, wrong structure, empty
  string). The model is standard base64 with padding; the decoder is strict: it accepts
  only the alphabet, only whole quadruples, padding only at the end, and only zero
  padding bits.
\<close>

definition b64_alphabet :: string where
  "b64_alphabet = ''ABCDEFGHIJKLMNOPQRSTUVWXYZabcdefghijklmnopqrstuvwxyz0123456789+/''"

definition b64_char :: "nat \<Rightarrow> char" where
  "b64_char i = b64_alphabet ! i"

fun index_of :: "'a \<Rightarrow> 'a list \<Rightarrow> nat option" where
  "index_of x [] = None"
| "index_of x (y # ys) = (if x = y then Some 0 else map_option Suc (index_of x ys))"

definition b64_value :: "char \<Rightarrow> nat option" where
  "b64_value c = index_of c b64_alphabet"

fun base64_encode :: "string \<Rightarrow> string" where
  "base64_encode [] = []"
| "base64_encode [a] =
     (let x = (of_char a :: nat)
      in [b64_char (x div 4), b64_char ((x mod 4) * 16), CHR ''='', CHR ''=''])"
| "base64_encode [a, b] =
     (let x = (of_char a :: nat); y = (of_char b :: nat)
      in [b64_char (x div 4), b64_char ((x mod 4) * 16 + y div 16),
          b64_char ((y mod 16) * 4), CHR ''=''])"
| "base64_encode (a # b # c # rest) =
     (let x = (of_char a :: nat); y = (of_char b :: nat); z = (of_char c :: nat)
      in [b64_char (x div 4), b64_char ((x mod 4) * 16 + y div 16),
          b64_char ((y mod 16) * 4 + z div 64), b64_char (z mod 64)] @ base64_encode rest)"

definition decode_quad :: "char \<Rightarrow> char \<Rightarrow> char \<Rightarrow> char \<Rightarrow> string option" where
  "decode_quad p q r s =
     (case (b64_value p, b64_value q, b64_value r, b64_value s) of
        (Some i, Some j, Some k, Some l) \<Rightarrow>
          Some [char_of (i * 4 + j div 16), char_of ((j mod 16) * 16 + k div 4),
                char_of ((k mod 4) * 64 + l)]
      | _ \<Rightarrow> None)"

definition decode_last :: "char \<Rightarrow> char \<Rightarrow> char \<Rightarrow> char \<Rightarrow> string option" where
  "decode_last p q r s =
     (if s = CHR ''='' then
        (if r = CHR ''='' then
           (case (b64_value p, b64_value q) of
              (Some i, Some j) \<Rightarrow>
                if j mod 16 = 0 then Some [char_of (i * 4 + j div 16)] else None
            | _ \<Rightarrow> None)
         else
           (case (b64_value p, b64_value q, b64_value r) of
              (Some i, Some j, Some k) \<Rightarrow>
                if k mod 4 = 0
                then Some [char_of (i * 4 + j div 16), char_of ((j mod 16) * 16 + k div 4)]
                else None
            | _ \<Rightarrow> None))
      else decode_quad p q r s)"

fun base64_decode :: "string \<Rightarrow> string option" where
  "base64_decode [] = Some []"
| "base64_decode [p, q, r, s] = decode_last p q r s"
| "base64_decode (p # q # r # s # rest) =
     (case decode_quad p q r s of
        None \<Rightarrow> None
      | Some bs \<Rightarrow> map_option ((@) bs) (base64_decode rest))"
| "base64_decode _ = None"

text \<open>
  Modelled from the spec: \<^verbatim>\<open>encodeCursor\<close> of \<^verbatim>\<open>src/utils/pagination\<close> (not among
  the source files), "base64 of the key's string form".
\<close>

definition encodeCursor :: "string \<Rightarrow> string" where
  "encodeCursor key = base64_encode key"

text \<open>
  Modelled from the spec: \<^verbatim>\<open>decodeCursor\<close> of \<^verbatim>\<open>src/utils/pagination\<close> (not among
  the source files); it "fails with InvalidCursor if the input is not a well-formed
  encoding of an OrderingKey (wrong alphabet, wrong structure, empty string)".
\<close>

definition decodeCursor :: "string \<Rightarrow> error + ObjectId" where
  "decodeCursor c =
     (case base64_decode c of
        None \<Rightarrow> Inl InvalidCursor
      | Some key \<Rightarrow> if is_object_id key then Inr key else Inl InvalidCursor)"

subsection \<open>The record store\<close>

text \<open>
  A mongoose model is a collection of documents. \<open>documents\<close> lists them in the store's
  natural order, the order a query without \<^verbatim>\<open>.sort\<close> returns them in. A store call is
  an awaited promise that may reject (connectivity, a malformed predicate); the two flags
  say whether \<^verbatim>\<open>find\<close> and \<^verbatim>\<open>countDocuments\<close> reject.
\<close>

record document =
  doc_id :: ObjectId
  archived :: bool

record order_doc = document +
  batch :: int
  client :: string

record product_doc = document +
  description :: string

record 'd collection =
  documents :: "'d list"
  find_fails :: bool
  count_fails :: bool

text \<open>A query object denotes a predicate on documents; \<^verbatim>\<open>{}\<close> matches every document.\<close>

type_synonym 'd query = "'d \<Rightarrow> bool"

definition match_all :: "'d query" where
  "match_all = (\<lambda>d. True)"

definition mongo_and :: "'d query list \<Rightarrow> 'd query" where
  "mongo_and qs = (\<lambda>d. list_all (\<lambda>q. q d) qs)"

datatype sort_spec = Unsorted | By_id_desc

definition apply_sort :: "sort_spec \<Rightarrow> 'a document_scheme list \<Rightarrow> 'a document_scheme list" where
  "apply_sort s ds = (case s of Unsorted \<Rightarrow> ds | By_id_desc \<Rightarrow> rev (sort_key doc_id ds))"

text \<open>
  \<^verbatim>\<open>Model.find(q).limit(n).sort(s)\<close>: mongoose builds one query from the chain, and
  the store sorts before it limits, in whichever order the chain names them.
\<close>

definition find_docs ::
  "'a document_scheme collection \<Rightarrow> 'a document_scheme query \<Rightarrow> nat \<Rightarrow> sort_spec
    \<Rightarrow> error + 'a document_scheme list" where
  "find_docs coll q lim s =
     (if find_fails coll then Inl StoreQueryFailed
      else Inr (take lim (apply_sort s (filter q (documents coll)))))"

definition countDocuments :: "'d collection \<Rightarrow> 'd query \<Rightarrow> error + nat" where
  "countDocuments coll q =
     (if count_fails coll then Inl StoreQueryFailed
      else Inr (length (filter q (documents coll))))"

subsection \<open>Requests and responses\<close>

record request =
  search :: "string option"
  afterCursor :: "string option"

record PageInfo =
  endCursor :: "string option"
  hasNextPage :: bool
  startCursor :: "string option"

record 'd edge =
  cursor :: string
  node :: 'd

record 'd page =
  pageInfo :: PageInfo
  edges :: "'d edge list"
  totalCount :: nat

text \<open>What the handler does with \<^verbatim>\<open>res\<close>: \<^verbatim>\<open>res.send(body)\<close> or \<^verbatim>\<open>res.sendStatus(n)\<close>.\<close>

datatype 'd response = Send "'d page" | SendStatus nat

text \<open>JavaScript truthiness of an optional string: \<^verbatim>\<open>undefined\<close> and \<^verbatim>\<open>""\<close> are falsy.\<close>

definition truthy :: "string option \<Rightarrow> bool" where
  "truthy p = (case p of None \<Rightarrow> False | Some s \<Rightarrow> s \<noteq> [])"

subsection \<open>\<^verbatim>\<open>parseInt(s, 10)\<close>\<close>

text \<open>
  ECMAScript \<^verbatim>\<open>parseInt\<close> with radix 10: leading white space is skipped, one sign is
  read, then the longest prefix of decimal digits; without a digit the result is NaN.
  The value is kept as an exact integer (a JavaScript number is a double and rounds above
  \<open>2^53\<close>; whether the result is zero or NaN, which is all the handler's truthiness test
  reads, is not affected).
\<close>

datatype js_number = NaN | Num int

definition is_js_space :: "char \<Rightarrow> bool" where
  "is_js_space c = ((of_char c :: nat) \<in> {9, 10, 11, 12, 13, 32, 160})"

definition is_digit :: "char \<Rightarrow> bool" where
  "is_digit c = (48 \<le> (of_char c :: nat) \<and> (of_char c :: nat) \<le> 57)"

definition digits_value :: "string \<Rightarrow> int" where
  "digits_value z = foldl (\<lambda>acc c. 10 * acc + (int (of_char c) - 48)) 0 z"

definition parseInt :: "string \<Rightarrow> js_number" where
  "parseInt s =
     (let t = dropWhile is_js_space s;
          negative = (case t of c # _ \<Rightarrow> c = CHR ''-'' | [] \<Rightarrow> False);
          u = (case t of c # cs \<Rightarrow> if c = CHR ''-'' \<or> c = CHR ''+'' then cs else t | [] \<Rightarrow> t);
          z = takeWhile is_digit u
      in if z = [] then NaN
         else Num ((if negative then - 1 else 1) * digits_value z))"

subsection \<open>The orders list handler\<close>

definition DEFAULT_PAGE_SIZE_orders :: nat where
  "DEFAULT_PAGE_SIZE_orders = 30"

definition orders_searchQuery :: "string option \<Rightarrow> js_number option" where
  "orders_searchQuery pSearch =
     (case pSearch of
        None \<Rightarrow> None
      | Some s \<Rightarrow> if s \<noteq> [] then Some (parseInt s) else None)"

text \<open>
  \<^verbatim>\<open>Object.assign({ archived: false }, searchQuery ? { batch: searchQuery } : {})\<close>.
  As a condition, \<^verbatim>\<open>searchQuery\<close> is truthy when it is a number other than zero;
  \<^verbatim>\<open>undefined\<close>, NaN and 0 are falsy.
\<close>

definition orders_searchFilter :: "js_number option \<Rightarrow> order_doc query" where
  "orders_searchFilter searchQuery =
     (\<lambda>d. archived d = False \<and>
          (case searchQuery of
             Some (Num n) \<Rightarrow> if n \<noteq> 0 then batch d = n else True
           | _ \<Rightarrow> True))"

text \<open>\<^verbatim>\<open>afterCursor ? { _id: { $lt: decodeCursor(afterCursor) } } : {}\<close>\<close>

definition orders_cursorFilters :: "string option \<Rightarrow> error + order_doc query" where
  "orders_cursorFilters pCursor =
     (case pCursor of
        None \<Rightarrow> Inr match_all
      | Some c \<Rightarrow>
          if c \<noteq> [] then
            (case decodeCursor c of
               Inl e \<Rightarrow> Inl e
             | Inr key \<Rightarrow> Inr (\<lambda>d. doc_id d < key))
          else Inr match_all)"

definition orders_index :: "order_doc collection \<Rightarrow> request \<Rightarrow> order_doc response" where
  "orders_index Order req =
     (let searchQuery = orders_searchQuery (search req);
          searchFilter = orders_searchFilter searchQuery
      in case orders_cursorFilters (afterCursor req) of
           Inl err \<Rightarrow> SendStatus 422
         | Inr cursorFilters \<Rightarrow>
             (case find_docs Order (mongo_and [cursorFilters, searchFilter])
                     (DEFAULT_PAGE_SIZE_orders + 1) By_id_desc of
                Inl err \<Rightarrow> SendStatus 422
              | Inr found \<Rightarrow>
                  (let hasNext = (length found > DEFAULT_PAGE_SIZE_orders);
                       items = (if hasNext then take DEFAULT_PAGE_SIZE_orders found else found);
                       es = map (\<lambda>r. \<lparr>cursor = encodeCursor (doc_id r), node = r\<rparr>) items;
                       info = \<lparr>endCursor = (if length es > 0 then Some (cursor (es ! (length es - 1)))
                                             else None),
                               hasNextPage = hasNext,
                               startCursor = (if length es > 0 then Some (cursor (es ! 0))
                                              else None)\<rparr>
                   in case countDocuments Order searchFilter of
                        Inl err \<Rightarrow> SendStatus 422
                      | Inr n \<Rightarrow> Send \<lparr>pageInfo = info, edges = es, totalCount = n\<rparr>)))"

subsection \<open>The products list handler\<close>

definition DEFAULT_PAGE_SIZE_products :: nat where
  "DEFAULT_PAGE_SIZE_products = 29"

text \<open>
  \<^verbatim>\<open>new RegExp(searchQuery, "i")\<close> is the JavaScript engine's: the handler takes it as
  the parameter \<open>RegExp\<close>, which compiles a pattern to a test on strings or throws a
  SyntaxError.
\<close>

type_synonym regexp = "string \<Rightarrow> error + (string \<Rightarrow> bool)"

definition products_searchQuery :: "string option \<Rightarrow> string option" where
  "products_searchQuery pSearch =
     (case pSearch of
        None \<Rightarrow> None
      | Some s \<Rightarrow> if s \<noteq> [] then Some s else None)"

text \<open>\<^verbatim>\<open>Object.assign({ archived: false }, searchQuery && { description: new RegExp(searchQuery, "i") })\<close>\<close>

definition products_searchFilter :: "regexp \<Rightarrow> string option \<Rightarrow> error + product_doc query" where
  "products_searchFilter RegExp searchQuery =
     (if truthy searchQuery then
        (case searchQuery of
           None \<Rightarrow> Inr (\<lambda>d. archived d = False)
         | Some s \<Rightarrow>
             (case RegExp s of
                Inl e \<Rightarrow> Inl e
              | Inr re \<Rightarrow> Inr (\<lambda>d. archived d = False \<and> re (description d))))
      else Inr (\<lambda>d. archived d = False))"

text \<open>\<^verbatim>\<open>afterCursor ? { _id: { $gt: decodeCursor(afterCursor) } } : {}\<close>\<close>

definition products_cursorFilters :: "string option \<Rightarrow> error + product_doc query" where
  "products_cursorFilters pCursor =
     (case pCursor of
        None \<Rightarrow> Inr match_all
      | Some c \<Rightarrow>
          if c \<noteq> [] then
            (case decodeCursor c of
               Inl e \<Rightarrow> Inl e
             | Inr key \<Rightarrow> Inr (\<lambda>d. doc_id d > key))
          else Inr match_all)"

definition products_index ::
  "regexp \<Rightarrow> product_doc collection \<Rightarrow> request \<Rightarrow> product_doc response" where
  "products_index RegExp Product req =
     (let searchQuery = products_searchQuery (search req)
      in case products_searchFilter RegExp searchQuery of
           Inl err \<Rightarrow> SendStatus 422
         | Inr searchFilter \<Rightarrow>
       (case products_cursorFilters (afterCursor req) of
           Inl err \<Rightarrow> SendStatus 422
         | Inr cursorFilters \<Rightarrow>
             (case find_docs Product (mongo_and [cursorFilters, searchFilter])
                     (DEFAULT_PAGE_SIZE_products + 1) Unsorted of
                Inl err \<Rightarrow> SendStatus 422
              | Inr found \<Rightarrow>
                  (let hasNext = (length found > DEFAULT_PAGE_SIZE_products);
                       items = (if hasNext then take DEFAULT_PAGE_SIZE_products found else found);
                       es = map (\<lambda>r. \<lparr>cursor = encodeCursor (doc_id r), node = r\<rparr>) items;
                       info = \<lparr>endCursor = (if length es > 0 then Some (cursor (es ! (length es - 1)))
                                             else None),
                               hasNextPage = hasNext,
                               startCursor = (if length es > 0 then Some (cursor (es ! 0))
                                              else None)\<rparr>
                   in case countDocuments Product searchFilter of
                        Inl err \<Rightarrow> SendStatus 422
                      | Inr n \<Rightarrow> Send \<lparr>pageInfo = info, edges = es, totalCount = n\<rparr>))))"


subsection \<open>Walking the pages of a listing\<close>

text \<open>
  The client of a list endpoint: it starts without a cursor and, while the response says
  \<^verbatim>\<open>hasNextPage\<close>, passes the response's \<^verbatim>\<open>endCursor\<close> back as
  \<^verbatim>\<open>afterCursor\<close>. The first argument bounds the number of requests.
\<close>

datatype 'd walk = Pages "'d page list" | Failed nat | Out_of_fuel

fun walk_orders ::
  "nat \<Rightarrow> order_doc collection \<Rightarrow> string option \<Rightarrow> string option \<Rightarrow> order_doc walk" where
  "walk_orders 0 Order srch cur = Out_of_fuel"
| "walk_orders (Suc n) Order srch cur =
     (case orders_index Order \<lparr>search = srch, afterCursor = cur\<rparr> of
        SendStatus st \<Rightarrow> Failed st
      | Send p \<Rightarrow>
          if hasNextPage (pageInfo p)
          then (case walk_orders n Order srch (endCursor (pageInfo p)) of
                  Pages ps \<Rightarrow> Pages (p # ps)
                | w \<Rightarrow> w)
          else Pages [p])"

fun walk_products ::
  "nat \<Rightarrow> regexp \<Rightarrow> product_doc collection \<Rightarrow> string option \<Rightarrow> string option
    \<Rightarrow> product_doc walk" where
  "walk_products 0 RegExp Product srch cur = Out_of_fuel"
| "walk_products (Suc n) RegExp Product srch cur =
     (case products_index RegExp Product \<lparr>search = srch, afterCursor = cur\<rparr> of
        SendStatus st \<Rightarrow> Failed st
      | Send p \<Rightarrow>
          if hasNextPage (pageInfo p)
          then (case walk_products n RegExp Product srch (endCursor (pageInfo p)) of
                  Pages ps \<Rightarrow> Pages (p # ps)
                | w \<Rightarrow> w)
          else Pages [p])"

definition visited :: "'d page list \<Rightarrow> 'd list" where
  "visited ps = concat (map (\<lambda>p. map node (edges p)) ps)"

subsection \<open>Store invariant\<close>

text \<open>
  What the store guarantees of \<^verbatim>\<open>_id\<close>: every document has an ObjectId, and no two
  documents share one (the unique index on \<^verbatim>\<open>_id\<close>).
\<close>

definition well_formed :: "'a document_scheme collection \<Rightarrow> bool" where
  "well_formed coll =
     (distinct (map doc_id (documents coll)) \<and> list_all (\<lambda>d. is_object_id (doc_id d)) (documents coll))"

definition available :: "'d collection \<Rightarrow> bool" where
  "available coll = (\<not> find_fails coll \<and> \<not> count_fails coll)"

subsection \<open>The page a handler builds, for the proofs\<close>

text \<open>
  Both handlers build their response from the found records in the same way; the proofs
  go through this one function of the page size, the found records and the count.
\<close>

definition make_page :: "nat \<Rightarrow> 'a document_scheme list \<Rightarrow> nat \<Rightarrow> 'a document_scheme page" where
  "make_page N found n =
     (let items = take N found;
          es = map (\<lambda>r. \<lparr>cursor = encodeCursor (doc_id r), node = r\<rparr>) items
      in \<lparr>pageInfo = \<lparr>endCursor = (if es = [] then None else Some (cursor (last es))),
                      hasNextPage = (length found > N),
                      startCursor = (if es = [] then None else Some (cursor (hd es)))\<rparr>,
          edges = es, totalCount = n\<rparr>)"

text \<open>
  A page whose page info agrees with its edges: the start and end cursors are those of
  the first and last edge (or absent when there is no edge), and every edge's cursor
  encodes its node's key.
\<close>

definition consistent_page :: "'a document_scheme page \<Rightarrow> bool" where
  "consistent_page p =
     (startCursor (pageInfo p) = (if edges p = [] then None else Some (cursor (hd (edges p)))) \<and>
      endCursor (pageInfo p) = (if edges p = [] then None else Some (cursor (last (edges p)))) \<and>
      list_all (\<lambda>e. cursor e = encodeCursor (doc_id (node e))) (edges p))"

definition descending :: "'a document_scheme list \<Rightarrow> bool" where
  "descending ds = sorted_wrt (\<lambda>a b. doc_id a > doc_id b) ds"

definition ascending :: "'a document_scheme list \<Rightarrow> bool" where
  "ascending ds = sorted_wrt (\<lambda>a b. doc_id a < doc_id b) ds"

subsection \<open>Example data\<close>

text \<open>
  Stores and requests on which the theorems below are run. \<open>oid n\<close> is the ObjectId
  whose 24 hexadecimal digits spell \<open>n\<close>.
\<close>

definition hex_digit :: "nat \<Rightarrow> char" where
  "hex_digit n = ''0123456789abcdef'' ! (n mod 16)"

fun hex_string :: "nat \<Rightarrow> nat \<Rightarrow> string" where
  "hex_string 0 n = []"
| "hex_string (Suc w) n = hex_string w (n div 16) @ [hex_digit n]"

definition oid :: "nat \<Rightarrow> ObjectId" where
  "oid n = hex_string 24 n"

definition order_no :: "nat \<Rightarrow> order_doc" where
  "order_no n = \<lparr>doc_id = oid n, archived = False, batch = 7, client = ''Ana''\<rparr>"

definition product_no :: "nat \<Rightarrow> product_doc" where
  "product_no n = \<lparr>doc_id = oid n, archived = False, description = ''Banana''\<rparr>"

text \<open>Five orders, stored out of key order; one is archived, one is of another batch.\<close>

definition few_orders :: "order_doc collection" where
  "few_orders =
     \<lparr>documents =
        [order_no 3, order_no 1, (order_no 5)\<lparr>batch := 8\<rparr>, (order_no 2)\<lparr>archived := True\<rparr>,
         order_no 4],
      find_fails = False, count_fails = False\<rparr>"

text \<open>Thirty-five orders of batch 7, keys 1 to 35: two pages.\<close>

definition many_orders :: "order_doc collection" where
  "many_orders =
     \<lparr>documents = map order_no [1..<36], find_fails = False, count_fails = False\<rparr>"

text \<open>Four products stored in key order; one is archived.\<close>

definition few_products :: "product_doc collection" where
  "few_products =
     \<lparr>documents =
        [product_no 1, (product_no 2)\<lparr>description := ''Apple''\<rparr>,
         (product_no 3)\<lparr>archived := True\<rparr>, product_no 4],
      find_fails = False, count_fails = False\<rparr>"

text \<open>Thirty-one products stored in key order, keys 1 to 31: two pages.\<close>

definition many_products :: "product_doc collection" where
  "many_products =
     \<lparr>documents = map product_no [1..<32], find_fails = False, count_fails = False\<rparr>"

text \<open>Two products whose natural order is not the order of their keys.\<close>

definition swapped_products :: "product_doc collection" where
  "swapped_products =
     \<lparr>documents = [product_no 2, product_no 1], find_fails = False, count_fails = False\<rparr>"

text \<open>Thirty products, keys 29 down to 0, stored with the greatest key first.\<close>

definition reversed_products :: "product_doc collection" where
  "reversed_products =
     \<lparr>documents = map product_no (rev [0..<30]), find_fails = False, count_fails = False\<rparr>"

text \<open>
  A stand-in for the regular expression engine: a pattern with an opening parenthesis
  does not compile, any other pattern is searched for literally.
\<close>

definition literal_RegExp :: regexp where
  "literal_RegExp pat =
     (if CHR ''('' \<in> set pat then Inl RegExpSyntaxError
      else Inr (\<lambda>s. list_ex (\<lambda>i. take (length pat) (drop i s) = pat) [0..<Suc (length s)]))"

section \<open>The cursor codec is a bijection between keys and cursors\<close>

lemma index_of_SomeD: "index_of x xs = Some i \<Longrightarrow> i < length xs \<and> xs ! i = x"
  by (induction xs arbitrary: i) (auto split: if_splits)

lemma index_of_nth: "distinct xs \<Longrightarrow> i < length xs \<Longrightarrow> index_of (xs ! i) xs = Some i"
proof (induction xs arbitrary: i)
  case Nil
  then show ?case by simp
next
  case (Cons y ys)
  show ?case
  proof (cases i)
    case 0
    then show ?thesis by simp
  next
    case (Suc j)
    with Cons.prems have "ys ! j \<noteq> y" "j < length ys" "distinct ys"
      by (auto simp: in_set_conv_nth)
    with Cons.IH[of j] Suc show ?thesis by auto
  qed
qed

lemma length_b64_alphabet: "length b64_alphabet = 64"
  by (simp add: b64_alphabet_def)

lemma distinct_b64_alphabet: "distinct b64_alphabet"
  by (simp add: b64_alphabet_def)

lemma b64_value_char: "i < 64 \<Longrightarrow> b64_value (b64_char i) = Some i"
  by (simp add: b64_value_def b64_char_def index_of_nth distinct_b64_alphabet length_b64_alphabet)

lemma b64_value_SomeD: "b64_value c = Some i \<Longrightarrow> i < 64 \<and> b64_char i = c"
  using index_of_SomeD[of c b64_alphabet i]
  by (simp add: b64_value_def b64_char_def length_b64_alphabet)

lemma b64_value_pad: "b64_value CHR ''='' = None"
  by (simp add: b64_value_def b64_alphabet_def)

lemma b64_char_not_pad: "i < 64 \<Longrightarrow> b64_char i \<noteq> CHR ''=''"
  using b64_value_char[of i] b64_value_pad by auto

lemma decode_full_quad:
  "b64_value s = Some l \<Longrightarrow>
   base64_decode (p # q # r # s # rest) =
     (case decode_quad p q r s of None \<Rightarrow> None
      | Some bs \<Rightarrow> map_option ((@) bs) (base64_decode rest))"
proof (cases rest)
  case Nil
  assume "b64_value s = Some l"
  then have "s \<noteq> CHR ''=''" using b64_value_pad by auto
  with Nil show ?thesis
    by (simp add: decode_last_def split: option.splits)
next
  case (Cons t ts)
  then show ?thesis by (simp split: option.splits)
qed

lemma digit_div: "q < b \<Longrightarrow> (r * b + q) div b = (r::nat)"
  by simp

lemma digit_mod: "q < b \<Longrightarrow> (r * b + q) mod b = (q::nat)"
  by simp

lemma digit_bound: "r < m \<Longrightarrow> q < b \<Longrightarrow> r * b + q < m * (b::nat)"
proof -
  assume r: "r < m" and q: "q < b"
  have "r * b + q < r * b + b" using q by simp
  also have "\<dots> = Suc r * b" by simp
  also have "\<dots> \<le> m * b" using r by (intro mult_le_mono1) simp
  finally show ?thesis .
qed

lemma byte_parts:
  fixes x :: nat
  assumes "x < 256"
  shows "x div 4 < 64" "x mod 4 < 4" "x div 16 < 16" "x mod 16 < 16" "x div 64 < 4" "x mod 64 < 64"
  using assms by simp_all

lemma sextet_bounds:
  fixes x y z :: nat
  assumes "y < 256" "z < 256"
  shows "(x mod 4) * 16 + y div 16 < 64" "(y mod 16) * 4 + z div 64 < 64"
    "(x mod 4) * 16 < 64" "(y mod 16) * 4 < 64"
proof -
  have x: "x mod 4 < 4" and y: "y mod 16 < 16" by simp_all
  have yd: "y div 16 < 16" and zd: "z div 64 < 4" using assms by simp_all
  show "(x mod 4) * 16 + y div 16 < 64" using digit_bound[OF x yd] by simp
  show "(y mod 16) * 4 + z div 64 < 64" using digit_bound[OF y zd] by simp
  show "(x mod 4) * 16 < 64" using digit_bound[OF x, of 0 16] by simp
  show "(y mod 16) * 4 < 64" using digit_bound[OF y, of 0 4] by simp
qed

lemma decode_quad_encode:
  fixes x y z :: nat
  assumes "x < 256" "y < 256" "z < 256"
  shows "decode_quad (b64_char (x div 4)) (b64_char ((x mod 4) * 16 + y div 16))
           (b64_char ((y mod 16) * 4 + z div 64)) (b64_char (z mod 64))
         = Some [char_of x, char_of y, char_of z]"
proof -
  note b = byte_parts[OF assms(1)] byte_parts[OF assms(2)] byte_parts[OF assms(3)]
    sextet_bounds[OF assms(2,3)]
  show ?thesis
    by (simp add: decode_quad_def b64_value_char b digit_div digit_mod)
qed

lemma base64_decode_encode: "base64_decode (base64_encode s) = Some s"
proof (induction s rule: base64_encode.induct)
  case 1
  then show ?case by simp
next
  case (2 a)
  define x :: nat where "x = of_char a"
  have x: "x < 256" by (simp add: x_def)
  note b = byte_parts[OF x] sextet_bounds[OF x x]
  have e: "((x mod 4) * 16) div 16 = x mod 4" "((x mod 4) * 16) mod 16 = 0"
    by simp_all
  have c: "char_of x = a" by (simp add: x_def)
  have "base64_encode [a] = [b64_char (x div 4), b64_char ((x mod 4) * 16), CHR ''='', CHR ''='']"
    by (simp add: x_def Let_def)
  moreover have "decode_last (b64_char (x div 4)) (b64_char ((x mod 4) * 16)) CHR ''='' CHR ''=''
    = Some [a]"
    by (simp add: decode_last_def b64_value_char b e c)
  ultimately show ?case by simp
next
  case (3 a b)
  define x :: nat where "x = of_char a"
  define y :: nat where "y = of_char b"
  have x: "x < 256" and y: "y < 256" by (simp_all add: x_def y_def)
  note b = byte_parts[OF x] byte_parts[OF y] sextet_bounds[OF y y]
  have e: "((y mod 16) * 4) div 4 = y mod 16" "((y mod 16) * 4) mod 4 = 0"
    by simp_all
  have c: "char_of x = a" "char_of y = b" by (simp_all add: x_def y_def)
  have "base64_encode [a, b] = [b64_char (x div 4), b64_char ((x mod 4) * 16 + y div 16),
          b64_char ((y mod 16) * 4), CHR ''='']"
    by (simp add: x_def y_def Let_def)
  moreover have "decode_last (b64_char (x div 4)) (b64_char ((x mod 4) * 16 + y div 16))
          (b64_char ((y mod 16) * 4)) CHR ''='' = Some [a, b]"
    using b64_char_not_pad[OF b(16)]
    by (simp add: decode_last_def b64_value_char b e c digit_div digit_mod)
  ultimately show ?case by simp
next
  case (4 a b c rest)
  define x :: nat where "x = of_char a"
  define y :: nat where "y = of_char b"
  define z :: nat where "z = of_char c"
  have x: "x < 256" "y < 256" "z < 256" by (simp_all add: x_def y_def z_def)
  have v: "b64_value (b64_char (z mod 64)) = Some (z mod 64)"
    by (rule b64_value_char) simp
  have c: "char_of x = a" "char_of y = b" "char_of z = c" by (simp_all add: x_def y_def z_def)
  have "base64_encode (a # b # c # rest) =
      b64_char (x div 4) # b64_char ((x mod 4) * 16 + y div 16) #
      b64_char ((y mod 16) * 4 + z div 64) # b64_char (z mod 64) # base64_encode rest"
    by (simp add: x_def y_def z_def Let_def)
  then show ?case
    using 4 decode_full_quad[OF v] decode_quad_encode[OF x]
    by (simp add: c)
qed


lemma of_char_of_small: "n < 256 \<Longrightarrow> of_char (char_of n) = (n::nat)"
  by simp

lemma sextet_parts:
  fixes j :: nat
  assumes "j < 64"
  shows "j div 16 < 4" "j mod 16 < 16" "j div 4 < 16" "j mod 4 < 4"
  using assms by simp_all

lemma byte_of_sextets:
  fixes i j k l :: nat
  assumes "i < 64" "j < 64" "k < 64" "l < 64"
  shows "i * 4 + j div 16 < 256" "(j mod 16) * 16 + k div 4 < 256" "(k mod 4) * 64 + l < 256"
proof -
  note s = sextet_parts[OF assms(2)] sextet_parts[OF assms(3)]
  show "i * 4 + j div 16 < 256" using digit_bound[OF assms(1) s(1)] by simp
  show "(j mod 16) * 16 + k div 4 < 256" using digit_bound[OF s(2) s(7)] by simp
  show "(k mod 4) * 64 + l < 256" using digit_bound[OF s(8) assms(4)] by simp
qed

lemma encode_decode_quad:
  assumes "decode_quad p q r s = Some bs"
  shows "\<exists>a b c. bs = [a, b, c] \<and>
           base64_encode (a # b # c # rest) = p # q # r # s # base64_encode rest"
proof -
  from assms obtain i j k l where v: "b64_value p = Some i" "b64_value q = Some j"
      "b64_value r = Some k" "b64_value s = Some l"
    and bs: "bs = [char_of (i * 4 + j div 16), char_of ((j mod 16) * 16 + k div 4),
                char_of ((k mod 4) * 64 + l)]"
    by (auto simp: decode_quad_def split: option.splits)
  from v have lt: "i < 64" "j < 64" "k < 64" "l < 64"
    and ch: "b64_char i = p" "b64_char j = q" "b64_char k = r" "b64_char l = s"
    using b64_value_SomeD by blast+
  note bb = byte_of_sextets[OF lt]
  note sp = sextet_parts[OF lt(2)] sextet_parts[OF lt(3)]
  have "base64_encode (char_of (i * 4 + j div 16) # char_of ((j mod 16) * 16 + k div 4) #
          char_of ((k mod 4) * 64 + l) # rest) = p # q # r # s # base64_encode rest"
    by (simp add: Let_def of_char_of_small bb digit_div digit_mod sp lt ch)
  with bs show ?thesis by blast
qed

lemma base64_encode_decode: "base64_decode c = Some s \<Longrightarrow> base64_encode s = c"
proof (induction c arbitrary: s rule: base64_decode.induct)
  case 1
  then show ?case by simp
next
  case (2 p q r t)
  show ?case
  proof (cases "t = CHR ''=''")
    case pad1: True
    show ?thesis
    proof (cases "r = CHR ''=''")
      case True
      with pad1 2 obtain i j where v: "b64_value p = Some i" "b64_value q = Some j"
        and z: "j mod 16 = 0" and s: "s = [char_of (i * 4 + j div 16)]"
        by (auto simp: decode_last_def split: option.splits if_splits)
      from v have lt: "i < 64" "j < 64" and ch: "b64_char i = p" "b64_char j = q"
        using b64_value_SomeD by blast+
      note bb = byte_of_sextets[OF lt lt]
      note sp = sextet_parts[OF lt(2)]
      have j: "j div 16 * 16 = j" using z by (metis add.right_neutral div_mult_mod_eq)
      show ?thesis
        by (simp add: s pad1 True Let_def of_char_of_small bb digit_div digit_mod sp ch j)
    next
      case False
      with pad1 2 obtain i j k where v: "b64_value p = Some i" "b64_value q = Some j"
          "b64_value r = Some k"
        and z: "k mod 4 = 0"
        and s: "s = [char_of (i * 4 + j div 16), char_of ((j mod 16) * 16 + k div 4)]"
        by (auto simp: decode_last_def split: option.splits if_splits)
      from v have lt: "i < 64" "j < 64" "k < 64"
        and ch: "b64_char i = p" "b64_char j = q" "b64_char k = r"
        using b64_value_SomeD by blast+
      note bb = byte_of_sextets[OF lt lt(3)]
      note sp = sextet_parts[OF lt(2)] sextet_parts[OF lt(3)]
      have k: "k div 4 * 4 = k" using z by (metis add.right_neutral div_mult_mod_eq)
      show ?thesis
        by (simp add: s pad1 Let_def of_char_of_small bb digit_div digit_mod sp ch k)
    qed
  next
    case False
    with 2 have "decode_quad p q r t = Some s" by (simp add: decode_last_def)
    from encode_decode_quad[OF this, of "[]"] show ?thesis by auto
  qed
next
  case (3 p q r t v va)
  from "3.prems" obtain bs w where q: "decode_quad p q r t = Some bs"
    and w: "base64_decode (v # va) = Some w" and s: "s = bs @ w"
    by (auto split: option.splits)
  from "3.IH"[OF q w] have "base64_encode w = v # va" .
  with encode_decode_quad[OF q, of w] s show ?case by auto
qed simp_all


lemma decodeCursor_encodeCursor: "is_object_id k \<Longrightarrow> decodeCursor (encodeCursor k) = Inr k"
  by (simp add: decodeCursor_def encodeCursor_def base64_decode_encode)

lemma decodeCursor_InrD: "decodeCursor c = Inr k \<Longrightarrow> is_object_id k \<and> c = encodeCursor k"
  by (auto simp: decodeCursor_def encodeCursor_def base64_encode_decode
      split: option.splits if_splits)

lemma base64_encode_eq_Nil: "base64_encode s = [] \<longleftrightarrow> s = []"
  by (induction s rule: base64_encode.induct) (simp_all add: Let_def)

lemma is_object_id_nonempty: "is_object_id k \<Longrightarrow> k \<noteq> []"
  by (auto simp: is_object_id_def)

lemma encodeCursor_nonempty: "is_object_id k \<Longrightarrow> encodeCursor k \<noteq> []"
  by (simp add: encodeCursor_def base64_encode_eq_Nil is_object_id_nonempty)

lemma decodeCursor_Nil: "decodeCursor [] = Inl InvalidCursor"
  by (simp add: decodeCursor_def is_object_id_def)

lemma decodeCursor_Inl: "decodeCursor c = Inl e \<Longrightarrow> e = InvalidCursor"
  by (auto simp: decodeCursor_def split: option.splits if_splits)

section \<open>The handlers, unfolded\<close>

lemma mongo_and_pair: "mongo_and [p, q] = (\<lambda>d. p d \<and> q d)"
  by (simp add: mongo_and_def)

lemma make_page_edges: "edges (make_page N found n) =
    map (\<lambda>r. \<lparr>cursor = encodeCursor (doc_id r), node = r\<rparr>) (take N found)"
  by (simp add: make_page_def Let_def)

lemma make_page_nodes: "map node (edges (make_page N found n)) = take N found"
  by (simp add: make_page_edges comp_def)

lemma make_page_hasNextPage: "hasNextPage (pageInfo (make_page N found n)) = (length found > N)"
  by (simp add: make_page_def Let_def)

lemma make_page_totalCount: "totalCount (make_page N found n) = n"
  by (simp add: make_page_def Let_def)

lemma make_page_endCursor: "endCursor (pageInfo (make_page N found n)) =
   (if take N found = [] then None else Some (encodeCursor (doc_id (last (take N found)))))"
  by (simp add: make_page_def Let_def last_map)

lemma make_page_startCursor: "startCursor (pageInfo (make_page N found n)) =
   (if take N found = [] then None else Some (encodeCursor (doc_id (hd (take N found)))))"
  by (simp add: make_page_def Let_def hd_map)

lemma orders_index_unfold:
  "orders_index Order req =
     (case orders_cursorFilters (afterCursor req) of
        Inl e \<Rightarrow> SendStatus 422
      | Inr cf \<Rightarrow>
          if find_fails Order \<or> count_fails Order then SendStatus 422
          else Send (make_page DEFAULT_PAGE_SIZE_orders
                 (take (Suc DEFAULT_PAGE_SIZE_orders)
                    (rev (sort_key doc_id
                       (filter (\<lambda>d. cf d \<and> orders_searchFilter (orders_searchQuery (search req)) d)
                          (documents Order)))))
                 (length (filter (orders_searchFilter (orders_searchQuery (search req)))
                    (documents Order)))))"
  by (auto simp: orders_index_def Let_def find_docs_def countDocuments_def make_page_def
      apply_sort_def mongo_and_pair hd_conv_nth last_conv_nth
      split: sum.splits)

lemma products_index_unfold:
  "products_index RegExp Product req =
     (case products_searchFilter RegExp (products_searchQuery (search req)) of
        Inl e \<Rightarrow> SendStatus 422
      | Inr sf \<Rightarrow>
     (case products_cursorFilters (afterCursor req) of
        Inl e \<Rightarrow> SendStatus 422
      | Inr cf \<Rightarrow>
          if find_fails Product \<or> count_fails Product then SendStatus 422
          else Send (make_page DEFAULT_PAGE_SIZE_products
                 (take (Suc DEFAULT_PAGE_SIZE_products)
                    (filter (\<lambda>d. cf d \<and> sf d) (documents Product)))
                 (length (filter sf (documents Product))))))"
  by (auto simp: products_index_def Let_def find_docs_def countDocuments_def make_page_def
      apply_sort_def mongo_and_pair hd_conv_nth last_conv_nth
      split: sum.splits)


section \<open>Lists in descending key order\<close>

lemma descending_sort:
  assumes "distinct (map doc_id xs)"
  shows "descending (rev (sort_key doc_id xs))"
proof -
  have "distinct (map doc_id (sort_key doc_id xs))"
    using assms by (simp add: distinct_map)
  moreover have "sorted (map doc_id (sort_key doc_id xs))" by (rule sorted_sort_key)
  ultimately have "sorted_wrt (<) (map doc_id (sort_key doc_id xs))"
    by (simp add: strict_sorted_iff)
  then show ?thesis
    by (simp add: descending_def sorted_wrt_rev sorted_wrt_map)
qed

lemma descending_filter: "descending ds \<Longrightarrow> descending (filter P ds)"
  by (simp add: descending_def sorted_wrt_filter)

lemma descending_below_nth:
  assumes "descending R" "n < length R"
  shows "filter (\<lambda>d. doc_id d < doc_id (R ! n)) R = drop (Suc n) R"
proof -
  have R: "R = take n R @ (R ! n) # drop (Suc n) R"
    using assms(2) by (simp add: id_take_nth_drop)
  have "sorted_wrt (\<lambda>a b. doc_id a > doc_id b) (take n R @ (R ! n) # drop (Suc n) R)"
    using assms(1) R by (simp add: descending_def)
  then have hi: "\<forall>d\<in>set (take n R). doc_id d > doc_id (R ! n)"
    and lo: "\<forall>d\<in>set (drop (Suc n) R). doc_id d < doc_id (R ! n)"
    by (auto simp: sorted_wrt_append)
  have "filter (\<lambda>d. doc_id d < doc_id (R ! n)) (take n R @ (R ! n) # drop (Suc n) R)
      = drop (Suc n) R"
    using hi lo by (auto simp: filter_empty_conv)
  with R show ?thesis by metis
qed

lemma filter_rev_sort:
  "filter P (rev (sort_key f xs)) = rev (sort_key f (filter P xs))"
  by (simp add: filter_sort flip: rev_filter)


section \<open>Walking the orders listing\<close>

lemma orders_cursorFilters_None: "orders_cursorFilters None = Inr match_all"
  by (simp add: orders_cursorFilters_def)

lemma orders_cursorFilters_encode:
  "is_object_id k \<Longrightarrow> orders_cursorFilters (Some (encodeCursor k)) = Inr (\<lambda>d. doc_id d < k)"
  by (simp add: orders_cursorFilters_def encodeCursor_nonempty decodeCursor_encodeCursor)

lemma visited_Cons: "visited (p # ps) = map node (edges p) @ visited ps"
  by (simp add: visited_def)

lemma walk_orders_from:
  assumes wf: "well_formed Order" and up: "available Order"
    and cf: "orders_cursorFilters cur = Inr cf"
    and down: "\<forall>d d'. cf d \<longrightarrow> doc_id d' < doc_id d \<longrightarrow> cf d'"
    and len: "length (filter (\<lambda>d. cf d \<and> orders_searchFilter (orders_searchQuery srch) d)
                 (documents Order)) < n"
  shows "\<exists>ps. walk_orders n Order srch cur = Pages ps \<and> ps \<noteq> [] \<and>
           visited ps = rev (sort_key doc_id
              (filter (\<lambda>d. cf d \<and> orders_searchFilter (orders_searchQuery srch) d)
                 (documents Order))) \<and>
           \<not> hasNextPage (pageInfo (last ps))"
  using cf down len
proof (induction n arbitrary: cur cf)
  case 0
  then show ?case by simp
next
  case (Suc m)
  define sf where "sf = orders_searchFilter (orders_searchQuery srch)"
  define docs where "docs = documents Order"
  define S where "S = rev (sort_key doc_id (filter sf docs))"
  define R where "R = rev (sort_key doc_id (filter (\<lambda>d. cf d \<and> sf d) docs))"
  define p where "p = make_page DEFAULT_PAGE_SIZE_orders (take (Suc DEFAULT_PAGE_SIZE_orders) R)
     (length (filter sf docs))"
  have N: "DEFAULT_PAGE_SIZE_orders = 30" by (simp add: DEFAULT_PAGE_SIZE_orders_def)
  have lenR: "length R < Suc m" using Suc.prems(3) by (simp add: R_def sf_def docs_def)
  have idx: "orders_index Order \<lparr>search = srch, afterCursor = cur\<rparr> = Send p"
    using up Suc.prems(1)
    by (simp add: orders_index_unfold available_def p_def R_def sf_def docs_def)
  have nodes: "map node (edges p) = take 30 R"
    by (simp add: p_def make_page_nodes N)
  have hnp: "hasNextPage (pageInfo p) = (length R > 30)"
    by (auto simp: p_def make_page_hasNextPage N)
  have dist: "distinct (map doc_id (filter (\<lambda>d. cf d \<and> sf d) docs))"
    using wf by (simp add: well_formed_def docs_def distinct_map_filter)
  have descR: "descending R"
    unfolding R_def by (rule descending_sort[OF dist])
  show ?case
  proof (cases "length R > 30")
    case False
    then have "walk_orders (Suc m) Order srch cur = Pages [p]"
      by (simp add: idx hnp)
    moreover have "visited [p] = R" using False by (simp add: visited_def nodes)
    ultimately show ?thesis
      using False by (simp add: hnp R_def sf_def docs_def)
  next
    case True
    define r where "r = R ! 29"
    define k where "k = doc_id r"
    have rR: "r \<in> set R" using True by (simp add: r_def)
    then have rdocs: "r \<in> set docs" and cfr: "cf r" by (auto simp: R_def)
    have valid: "is_object_id k"
      using wf rdocs by (auto simp: well_formed_def docs_def k_def list_all_iff)
    have "take 30 (take 31 R) = take 30 R" by simp
    moreover have ne: "take 30 R \<noteq> []" using True by auto
    moreover have "last (take 30 R) = r"
      using True by (simp add: r_def last_conv_nth[OF ne] min_def)
    ultimately have ec: "endCursor (pageInfo p) = Some (encodeCursor k)"
      by (simp add: p_def make_page_endCursor N k_def)
    have cf': "orders_cursorFilters (Some (encodeCursor k)) = Inr (\<lambda>d. doc_id d < k)"
      by (rule orders_cursorFilters_encode[OF valid])
    have sub: "filter (\<lambda>d. doc_id d < k \<and> sf d) docs = filter (\<lambda>d. doc_id d < k) (filter (\<lambda>d. cf d \<and> sf d) docs)"
      using Suc.prems(2) cfr by (auto simp: k_def intro: filter_cong)
    have "rev (sort_key doc_id (filter (\<lambda>d. doc_id d < k \<and> sf d) docs))
        = filter (\<lambda>d. doc_id d < k) R"
      by (simp add: sub R_def filter_rev_sort)
    also have "\<dots> = drop 30 R"
      using descending_below_nth[OF descR, of 29] True by (simp add: k_def r_def)
    finally have R': "rev (sort_key doc_id (filter (\<lambda>d. doc_id d < k \<and> sf d) docs)) = drop 30 R" .
    have "length (filter (\<lambda>d. doc_id d < k \<and> sf d) docs) = length (drop 30 R)"
      using arg_cong[OF R', of length] by simp
    then have len': "length (filter (\<lambda>d. doc_id d < k \<and> orders_searchFilter (orders_searchQuery srch) d)
                 (documents Order)) < m"
      using lenR True by (simp add: sf_def docs_def)
    have mono: "\<forall>d d'. doc_id d < k \<longrightarrow> doc_id d' < doc_id d \<longrightarrow> doc_id d' < k"
      by auto
    from Suc.IH[OF cf' mono len']
    obtain ps where ps: "walk_orders m Order srch (Some (encodeCursor k)) = Pages ps"
      "ps \<noteq> []" "visited ps = drop 30 R" "\<not> hasNextPage (pageInfo (last ps))"
      using R' by (auto simp: sf_def docs_def)
    have "walk_orders (Suc m) Order srch cur = Pages (p # ps)"
      using True by (simp add: idx hnp ec ps(1))
    moreover have "visited (p # ps) = R"
      by (simp add: visited_Cons nodes ps(3))
    ultimately show ?thesis
      using ps(2,4) by (simp add: R_def sf_def docs_def)
  qed
qed

text \<open>
  Walking the orders listing from no cursor returns every matching order once, greatest
  key first, and ends on a page without a next page. The number of requests is at most
  one more than the number of stored orders.
\<close>

lemma orders_walk_exhaustive:
  assumes "well_formed Order" "available Order"
  shows "\<exists>ps. walk_orders (Suc (length (documents Order))) Order srch None = Pages ps \<and>
           ps \<noteq> [] \<and>
           visited ps = rev (sort_key doc_id
              (filter (orders_searchFilter (orders_searchQuery srch)) (documents Order))) \<and>
           \<not> hasNextPage (pageInfo (last ps))"
proof -
  have "length (filter (\<lambda>d. match_all d \<and> orders_searchFilter (orders_searchQuery srch) d)
                 (documents Order)) < Suc (length (documents Order))"
    by (simp add: le_imp_less_Suc)
  moreover have "\<forall>d d'. match_all d \<longrightarrow> doc_id d' < doc_id d \<longrightarrow> match_all d'"
    by (simp add: match_all_def)
  ultimately show ?thesis
    using walk_orders_from[OF assms orders_cursorFilters_None,
        where n = "Suc (length (documents Order))" and srch = srch]
    by (simp add: match_all_def)
qed


text \<open>On the thirty-five example orders the walk takes two requests.\<close>

lemma orders_walk_example:
  "\<exists>ps. walk_orders 36 many_orders None None = Pages ps \<and>
     (length ps = 2 \<and> map doc_id (visited ps) = map oid (rev [1..<36]) \<and>
      map (\<lambda>p. length (edges p)) ps = [30, 5] \<and>
      map (\<lambda>p. hasNextPage (pageInfo p)) ps = [True, False])"
proof -
  have wf: "well_formed many_orders" by code_simp
  have av: "available many_orders" by (simp add: available_def many_orders_def)
  have n: "Suc (length (documents many_orders)) = 36" by code_simp
  from orders_walk_exhaustive[OF wf av, of None] obtain ps where
    w: "walk_orders 36 many_orders None None = Pages ps"
    unfolding n by blast
  have c: "case walk_orders 36 many_orders None None of
        Pages ps \<Rightarrow> length ps = 2 \<and> map doc_id (visited ps) = map oid (rev [1..<36]) \<and>
          map (\<lambda>p. length (edges p)) ps = [30, 5] \<and>
          map (\<lambda>p. hasNextPage (pageInfo p)) ps = [True, False]
      | Failed n \<Rightarrow> False
      | Out_of_fuel \<Rightarrow> False"
    by code_simp
  have all: "length ps = 2 \<and> map doc_id (visited ps) = map oid (rev [1..<36]) \<and>
      map (\<lambda>p. length (edges p)) ps = [30, 5] \<and>
      map (\<lambda>p. hasNextPage (pageInfo p)) ps = [True, False]"
    using c unfolding w walk.case .
  show ?thesis
    by (rule exI[of _ ps]) (rule conjI[OF w all])
qed

section \<open>Walking the products listing\<close>

text \<open>
  The products query has no sort, so its pages follow the store's natural order. When
  that order happens to be ascending in the key, the walk returns every matching product
  once, in that order.
\<close>

lemma ascending_filter: "ascending ds \<Longrightarrow> ascending (filter P ds)"
  by (simp add: ascending_def sorted_wrt_filter)

lemma ascending_above_nth:
  assumes "ascending R" "n < length R"
  shows "filter (\<lambda>d. doc_id d > doc_id (R ! n)) R = drop (Suc n) R"
proof -
  have R: "R = take n R @ (R ! n) # drop (Suc n) R"
    using assms(2) by (simp add: id_take_nth_drop)
  have "sorted_wrt (\<lambda>a b. doc_id a < doc_id b) (take n R @ (R ! n) # drop (Suc n) R)"
    using assms(1) R by (simp add: ascending_def)
  then have lo: "\<forall>d\<in>set (take n R). doc_id d < doc_id (R ! n)"
    and hi: "\<forall>d\<in>set (drop (Suc n) R). doc_id d > doc_id (R ! n)"
    by (auto simp: sorted_wrt_append)
  have "filter (\<lambda>d. doc_id d > doc_id (R ! n)) (take n R @ (R ! n) # drop (Suc n) R)
      = drop (Suc n) R"
    using hi lo by (auto simp: filter_empty_conv)
  with R show ?thesis by metis
qed

lemma products_cursorFilters_None: "products_cursorFilters None = Inr match_all"
  by (simp add: products_cursorFilters_def)

lemma products_cursorFilters_encode:
  "is_object_id k \<Longrightarrow> products_cursorFilters (Some (encodeCursor k)) = Inr (\<lambda>d. doc_id d > k)"
  by (simp add: products_cursorFilters_def encodeCursor_nonempty decodeCursor_encodeCursor)

lemma walk_products_from:
  assumes wf: "well_formed Product" and up: "available Product"
    and asc: "ascending (documents Product)"
    and sf: "products_searchFilter RegExp (products_searchQuery srch) = Inr sf"
    and cf: "products_cursorFilters cur = Inr cf"
    and up_closed: "\<forall>d d'. cf d \<longrightarrow> doc_id d < doc_id d' \<longrightarrow> cf d'"
    and len: "length (filter (\<lambda>d. cf d \<and> sf d) (documents Product)) < n"
  shows "\<exists>ps. walk_products n RegExp Product srch cur = Pages ps \<and> ps \<noteq> [] \<and>
           visited ps = filter (\<lambda>d. cf d \<and> sf d) (documents Product) \<and>
           \<not> hasNextPage (pageInfo (last ps))"
  using cf up_closed len
proof (induction n arbitrary: cur cf)
  case 0
  then show ?case by simp
next
  case (Suc m)
  define docs where "docs = documents Product"
  define R where "R = filter (\<lambda>d. cf d \<and> sf d) docs"
  define p where "p = make_page DEFAULT_PAGE_SIZE_products
     (take (Suc DEFAULT_PAGE_SIZE_products) R) (length (filter sf docs))"
  have N: "DEFAULT_PAGE_SIZE_products = 29" by (simp add: DEFAULT_PAGE_SIZE_products_def)
  have lenR: "length R < Suc m" using Suc.prems(3) by (simp add: R_def docs_def)
  have idx: "products_index RegExp Product \<lparr>search = srch, afterCursor = cur\<rparr> = Send p"
    using up Suc.prems(1) sf
    by (simp add: products_index_unfold available_def p_def R_def docs_def)
  have nodes: "map node (edges p) = take 29 R"
    by (simp add: p_def make_page_nodes N)
  have hnp: "hasNextPage (pageInfo p) = (length R > 29)"
    by (auto simp: p_def make_page_hasNextPage N)
  have ascR: "ascending R"
    unfolding R_def docs_def by (rule ascending_filter[OF asc])
  show ?case
  proof (cases "length R > 29")
    case False
    then have "walk_products (Suc m) RegExp Product srch cur = Pages [p]"
      by (simp add: idx hnp)
    moreover have "visited [p] = R" using False by (simp add: visited_def nodes)
    ultimately show ?thesis
      using False by (simp add: hnp R_def docs_def)
  next
    case True
    define r where "r = R ! 28"
    define k where "k = doc_id r"
    have rR: "r \<in> set R" using True by (simp add: r_def)
    then have rdocs: "r \<in> set docs" and cfr: "cf r" by (auto simp: R_def)
    have valid: "is_object_id k"
      using wf rdocs by (auto simp: well_formed_def docs_def k_def list_all_iff)
    have "take 29 (take 30 R) = take 29 R" by simp
    moreover have ne: "take 29 R \<noteq> []" using True by auto
    moreover have "last (take 29 R) = r"
      using True by (simp add: r_def last_conv_nth[OF ne] min_def)
    ultimately have ec: "endCursor (pageInfo p) = Some (encodeCursor k)"
      by (simp add: p_def make_page_endCursor N k_def)
    have cf': "products_cursorFilters (Some (encodeCursor k)) = Inr (\<lambda>d. doc_id d > k)"
      by (rule products_cursorFilters_encode[OF valid])
    have "filter (\<lambda>d. doc_id d > k \<and> sf d) docs = filter (\<lambda>d. doc_id d > k) R"
      using Suc.prems(2) cfr by (auto simp: k_def R_def intro: filter_cong)
    also have "\<dots> = drop 29 R"
      using ascending_above_nth[OF ascR, of 28] True by (simp add: k_def r_def)
    finally have R': "filter (\<lambda>d. doc_id d > k \<and> sf d) docs = drop 29 R" .
    have len': "length (filter (\<lambda>d. doc_id d > k \<and> sf d) (documents Product)) < m"
      using lenR True by (simp add: R'[unfolded docs_def])
    have mono: "\<forall>d d'. doc_id d > k \<longrightarrow> doc_id d < doc_id d' \<longrightarrow> doc_id d' > k"
      by auto
    from Suc.IH[OF cf' mono len']
    obtain ps where ps: "walk_products m RegExp Product srch (Some (encodeCursor k)) = Pages ps"
      "ps \<noteq> []" "visited ps = drop 29 R" "\<not> hasNextPage (pageInfo (last ps))"
      using R' by (auto simp: docs_def)
    have "walk_products (Suc m) RegExp Product srch cur = Pages (p # ps)"
      using True by (simp add: idx hnp ec ps(1))
    moreover have "visited (p # ps) = R"
      by (simp add: visited_Cons nodes ps(3))
    ultimately show ?thesis
      using ps(2,4) by (simp add: R_def docs_def)
  qed
qed

lemma products_walk_exhaustive_if_stored_ascending:
  assumes "well_formed Product" "available Product" "ascending (documents Product)"
    and "products_searchFilter RegExp (products_searchQuery srch) = Inr sf"
  shows "\<exists>ps. walk_products (Suc (length (documents Product))) RegExp Product srch None = Pages ps \<and>
           ps \<noteq> [] \<and>
           visited ps = filter sf (documents Product) \<and>
           \<not> hasNextPage (pageInfo (last ps))"
proof -
  have "length (filter (\<lambda>d. match_all d \<and> sf d) (documents Product))
      < Suc (length (documents Product))"
    by (simp add: le_imp_less_Suc)
  moreover have "\<forall>d d'. match_all d \<longrightarrow> doc_id d < doc_id d' \<longrightarrow> match_all d'"
    by (simp add: match_all_def)
  ultimately show ?thesis
    using walk_products_from[OF assms products_cursorFilters_None,
        where n = "Suc (length (documents Product))"]
    by (simp add: match_all_def)
qed

section \<open>What a successful response is made of\<close>

lemma orders_index_SendD:
  assumes "orders_index Order req = Send p"
  shows "\<exists>cf. orders_cursorFilters (afterCursor req) = Inr cf \<and> available Order \<and>
     p = make_page DEFAULT_PAGE_SIZE_orders
           (take (Suc DEFAULT_PAGE_SIZE_orders)
              (rev (sort_key doc_id
                 (filter (\<lambda>d. cf d \<and> orders_searchFilter (orders_searchQuery (search req)) d)
                    (documents Order)))))
           (length (filter (orders_searchFilter (orders_searchQuery (search req)))
              (documents Order)))"
  using assms
  by (auto simp: orders_index_unfold available_def split: sum.splits if_splits)

lemma products_index_SendD:
  assumes "products_index RegExp Product req = Send p"
  shows "\<exists>sf cf. products_searchFilter RegExp (products_searchQuery (search req)) = Inr sf \<and>
     products_cursorFilters (afterCursor req) = Inr cf \<and> available Product \<and>
     p = make_page DEFAULT_PAGE_SIZE_products
           (take (Suc DEFAULT_PAGE_SIZE_products) (filter (\<lambda>d. cf d \<and> sf d) (documents Product)))
           (length (filter sf (documents Product)))"
  using assms
  by (auto simp: products_index_unfold available_def split: sum.splits if_splits)

lemma take_Suc_butlast: "length xs = Suc n \<Longrightarrow> take n xs = butlast xs"
  by (simp add: butlast_conv_take)

lemma orders_cursorFilters_decoded:
  "decodeCursor c = Inr k \<Longrightarrow> orders_cursorFilters (Some c) = Inr (\<lambda>d. doc_id d < k)"
  by (auto simp: orders_cursorFilters_def decodeCursor_Nil)

lemma products_cursorFilters_decoded:
  "decodeCursor c = Inr k \<Longrightarrow> products_cursorFilters (Some c) = Inr (\<lambda>d. doc_id d > k)"
  by (auto simp: products_cursorFilters_def decodeCursor_Nil)

lemma make_page_edge_nodes:
  "e \<in> set (edges (make_page N found n)) \<Longrightarrow> node e \<in> set found"
  by (auto simp: make_page_edges dest: in_set_takeD)

lemma consistent_make_page: "consistent_page (make_page N found n)"
  by (simp add: consistent_page_def make_page_def Let_def list_all_iff)

lemma orders_cursorFilters_Inl_iff:
  "(\<exists>e. orders_cursorFilters cur = Inl e) \<longleftrightarrow>
   (\<exists>c e. cur = Some c \<and> c \<noteq> [] \<and> decodeCursor c = Inl e)"
  by (auto simp: orders_cursorFilters_def split: option.splits sum.splits if_splits)

lemma products_cursorFilters_Inl_iff:
  "(\<exists>e. products_cursorFilters cur = Inl e) \<longleftrightarrow>
   (\<exists>c e. cur = Some c \<and> c \<noteq> [] \<and> decodeCursor c = Inl e)"
  by (auto simp: products_cursorFilters_def split: option.splits sum.splits if_splits)

lemma orders_cursorFilters_empty:
  "cur = None \<or> cur = Some [] \<Longrightarrow> orders_cursorFilters cur = Inr match_all"
  by (auto simp: orders_cursorFilters_def)

lemma products_cursorFilters_empty:
  "cur = None \<or> cur = Some [] \<Longrightarrow> products_cursorFilters cur = Inr match_all"
  by (auto simp: products_cursorFilters_def)

text \<open>
  The orders listing asks the store for descending key order, so the edges of every page
  it sends are in strictly descending key order.
\<close>

lemma orders_edges_descending:
  assumes "orders_index Order req = Send p" "well_formed Order"
  shows "descending (map node (edges p))"
proof -
  from orders_index_SendD[OF assms(1)] obtain cf where
    p: "p = make_page DEFAULT_PAGE_SIZE_orders
           (take (Suc DEFAULT_PAGE_SIZE_orders)
              (rev (sort_key doc_id
                 (filter (\<lambda>d. cf d \<and> orders_searchFilter (orders_searchQuery (search req)) d)
                    (documents Order)))))
           (length (filter (orders_searchFilter (orders_searchQuery (search req)))
              (documents Order)))"
    by blast
  have "distinct (map doc_id
     (filter (\<lambda>d. cf d \<and> orders_searchFilter (orders_searchQuery (search req)) d) (documents Order)))"
    using assms(2) by (simp add: well_formed_def distinct_map_filter)
  from descending_sort[OF this] show ?thesis
    unfolding p make_page_nodes descending_def
    by (simp add: sorted_wrt_take)
qed

section \<open>Claims\<close>

text \<open>
  C1. Exhaustive pagination. For the orders listing the walk visits every matching order
  once, in descending key order, and ends without a next page
  (\<open>orders_walk_exhaustive\<close> above). For the products listing it does not: on thirty
  unarchived products stored with the greatest key first, the walk ends after two pages,
  having returned the keys 29 to 1 and then the keys 29 to 2 again; the product with key
  0 is never returned and twenty-eight products are returned twice.
\<close>

theorem products_walk_skips_and_repeats:
  "\<exists>ps. walk_products 3 literal_RegExp reversed_products None None = Pages ps \<and>
        (length ps = 2 \<and> \<not> hasNextPage (pageInfo (last ps)) \<and>
         length (filter (\<lambda>d. archived d = False) (documents reversed_products)) = 30 \<and>
         map doc_id (visited ps) = map oid (rev [1..<30]) @ map oid (rev [2..<30]) \<and>
         oid 0 \<in> set (map doc_id (documents reversed_products)) \<and>
         oid 0 \<notin> set (map doc_id (visited ps)) \<and>
         \<not> distinct (map doc_id (visited ps)))"
proof -
  let ?w = "walk_products 3 literal_RegExp reversed_products None None"
  have c: "case ?w of
          Pages ps \<Rightarrow> length ps = 2 \<and> \<not> hasNextPage (pageInfo (last ps)) \<and>
            length (filter (\<lambda>d. archived d = False) (documents reversed_products)) = 30 \<and>
            map doc_id (visited ps) = map oid (rev [1..<30]) @ map oid (rev [2..<30]) \<and>
            oid 0 \<in> set (map doc_id (documents reversed_products)) \<and>
            oid 0 \<notin> set (map doc_id (visited ps)) \<and>
            \<not> distinct (map doc_id (visited ps))
        | Failed n \<Rightarrow> False
        | Out_of_fuel \<Rightarrow> False"
    by code_simp
  then obtain ps where w: "?w = Pages ps" by (cases ?w) simp_all
  from c have all: "length ps = 2 \<and> \<not> hasNextPage (pageInfo (last ps)) \<and>
         length (filter (\<lambda>d. archived d = False) (documents reversed_products)) = 30 \<and>
         map doc_id (visited ps) = map oid (rev [1..<30]) @ map oid (rev [2..<30]) \<and>
         oid 0 \<in> set (map doc_id (documents reversed_products)) \<and>
         oid 0 \<notin> set (map doc_id (visited ps)) \<and>
         \<not> distinct (map doc_id (visited ps))"
    unfolding w walk.case .
  show ?thesis
    by (rule exI[of _ ps]) (rule conjI[OF w all])
qed

text \<open>
  C2. Sort direction. The orders query is sorted by \<^verbatim>\<open>_id\<close> descending and limited to
  31 records (\<open>orders_edges_descending\<close> above). The products query is limited to 30
  records but carries no \<^verbatim>\<open>.sort\<close>: its edges come in the store's natural order. On a
  store that holds the product with key 2 before the product with key 1, the first page
  lists key 2 before key 1, which is not ascending.
\<close>

theorem products_listing_follows_natural_order:
  "\<exists>p. products_index literal_RegExp swapped_products \<lparr>search = None, afterCursor = None\<rparr>
          = Send p \<and>
       map (\<lambda>e. doc_id (node e)) (edges p) = [oid 2, oid 1] \<and>
       oid 1 < oid 2 \<and>
       \<not> sorted (map (\<lambda>e. doc_id (node e)) (edges p))"
proof -
  have "case products_index literal_RegExp swapped_products \<lparr>search = None, afterCursor = None\<rparr> of
          Send p \<Rightarrow> map (\<lambda>e. doc_id (node e)) (edges p) = [oid 2, oid 1] \<and> oid 1 < oid 2 \<and>
             \<not> sorted (map (\<lambda>e. doc_id (node e)) (edges p))
        | SendStatus n \<Rightarrow> False"
    by code_simp
  then show ?thesis by (auto split: response.splits)
qed

text \<open>
  C3. Next-page detection and trimming: when the store returns more than the page size
  (which under the limit means exactly one more), the response says
  \<^verbatim>\<open>hasNextPage\<close> and its edges are the first page-size records in store order, the
  over-fetched last record dropped; when the store returns at most the page size, the
  response says there is no next page and every returned record is an edge.
\<close>

theorem hasNextPage_trims_overfetch:
  "(orders_cursorFilters (afterCursor req) = Inr cf \<and>
    find_docs Order (mongo_and [cf, orders_searchFilter (orders_searchQuery (search req))])
      (DEFAULT_PAGE_SIZE_orders + 1) By_id_desc = Inr found \<and>
    orders_index Order req = Send p \<longrightarrow>
      length found \<le> DEFAULT_PAGE_SIZE_orders + 1 \<and>
      (if length found > DEFAULT_PAGE_SIZE_orders
       then hasNextPage (pageInfo p) \<and> map node (edges p) = take DEFAULT_PAGE_SIZE_orders found \<and>
            map node (edges p) = butlast found
       else \<not> hasNextPage (pageInfo p) \<and> map node (edges p) = found)) \<and>
   (products_searchFilter RegExp (products_searchQuery (search req')) = Inr sf' \<and>
    products_cursorFilters (afterCursor req') = Inr cf' \<and>
    find_docs Product (mongo_and [cf', sf']) (DEFAULT_PAGE_SIZE_products + 1) Unsorted = Inr found' \<and>
    products_index RegExp Product req' = Send p' \<longrightarrow>
      length found' \<le> DEFAULT_PAGE_SIZE_products + 1 \<and>
      (if length found' > DEFAULT_PAGE_SIZE_products
       then hasNextPage (pageInfo p') \<and>
            map node (edges p') = take DEFAULT_PAGE_SIZE_products found' \<and>
            map node (edges p') = butlast found'
       else \<not> hasNextPage (pageInfo p') \<and> map node (edges p') = found'))"
proof (intro conjI impI)
  assume a: "orders_cursorFilters (afterCursor req) = Inr cf \<and>
    find_docs Order (mongo_and [cf, orders_searchFilter (orders_searchQuery (search req))])
      (DEFAULT_PAGE_SIZE_orders + 1) By_id_desc = Inr found \<and>
    orders_index Order req = Send p"
  then have f: "found = take (Suc DEFAULT_PAGE_SIZE_orders)
              (rev (sort_key doc_id
                 (filter (\<lambda>d. cf d \<and> orders_searchFilter (orders_searchQuery (search req)) d)
                    (documents Order))))"
    by (auto simp: find_docs_def apply_sort_def mongo_and_pair split: if_splits)
  from a orders_index_SendD[of Order req p]
  have p: "p = make_page DEFAULT_PAGE_SIZE_orders found
           (length (filter (orders_searchFilter (orders_searchQuery (search req)))
              (documents Order)))"
    by (auto simp: f)
  show "length found \<le> DEFAULT_PAGE_SIZE_orders + 1" by (simp add: f)
  then show "if length found > DEFAULT_PAGE_SIZE_orders
       then hasNextPage (pageInfo p) \<and> map node (edges p) = take DEFAULT_PAGE_SIZE_orders found \<and>
            map node (edges p) = butlast found
       else \<not> hasNextPage (pageInfo p) \<and> map node (edges p) = found"
    by (auto simp: p make_page_nodes make_page_hasNextPage intro!: take_Suc_butlast)
next
  assume a: "products_searchFilter RegExp (products_searchQuery (search req')) = Inr sf' \<and>
    products_cursorFilters (afterCursor req') = Inr cf' \<and>
    find_docs Product (mongo_and [cf', sf']) (DEFAULT_PAGE_SIZE_products + 1) Unsorted = Inr found' \<and>
    products_index RegExp Product req' = Send p'"
  then have f: "found' = take (Suc DEFAULT_PAGE_SIZE_products)
       (filter (\<lambda>d. cf' d \<and> sf' d) (documents Product))"
    by (auto simp: find_docs_def apply_sort_def mongo_and_pair split: if_splits)
  from a products_index_SendD[of RegExp Product req' p']
  have p: "p' = make_page DEFAULT_PAGE_SIZE_products found' (length (filter sf' (documents Product)))"
    by (auto simp: f)
  show "length found' \<le> DEFAULT_PAGE_SIZE_products + 1" by (simp add: f)
  then show "if length found' > DEFAULT_PAGE_SIZE_products
       then hasNextPage (pageInfo p') \<and>
            map node (edges p') = take DEFAULT_PAGE_SIZE_products found' \<and>
            map node (edges p') = butlast found'
       else \<not> hasNextPage (pageInfo p') \<and> map node (edges p') = found'"
    by (auto simp: p make_page_nodes make_page_hasNextPage intro!: take_Suc_butlast)
qed


theorem hasNextPage_trims_overfetch_witness:
  "(\<exists>found p.
      find_docs many_orders (mongo_and [match_all, orders_searchFilter (orders_searchQuery None)])
        (DEFAULT_PAGE_SIZE_orders + 1) By_id_desc = Inr found \<and>
      orders_index many_orders \<lparr>search = None, afterCursor = None\<rparr> = Send p \<and>
      length (documents many_orders) = 35 \<and> length found = 31 \<and>
      hasNextPage (pageInfo p) \<and> map node (edges p) = butlast found) \<and>
   (\<exists>found' p'.
      find_docs few_products (mongo_and [match_all, \<lambda>d. archived d = False])
        (DEFAULT_PAGE_SIZE_products + 1) Unsorted = Inr found' \<and>
      products_index literal_RegExp few_products \<lparr>search = None, afterCursor = None\<rparr> = Send p' \<and>
      length found' = 3 \<and> \<not> hasNextPage (pageInfo p') \<and> map node (edges p') = found')"
proof -
  let ?r = "\<lparr>search = None, afterCursor = None\<rparr>"
  define found where "found = take 31 (rev (sort_key doc_id
     (filter (mongo_and [match_all, orders_searchFilter (orders_searchQuery None)])
        (documents many_orders))))"
  have c: "orders_cursorFilters (afterCursor ?r) = Inr match_all"
    by (simp add: orders_cursorFilters_def)
  have f: "find_docs many_orders
      (mongo_and [match_all, orders_searchFilter (orders_searchQuery (search ?r))])
      (DEFAULT_PAGE_SIZE_orders + 1) By_id_desc = Inr found"
    by (simp add: find_docs_def many_orders_def apply_sort_def found_def
        DEFAULT_PAGE_SIZE_orders_def)
  have len: "length found = 31" unfolding found_def by code_simp
  have n: "length (documents many_orders) = 35" by code_simp
  have "case orders_index many_orders ?r of Send p \<Rightarrow> True | SendStatus n \<Rightarrow> False"
    by code_simp
  then obtain p where p: "orders_index many_orders ?r = Send p"
    by (auto split: response.splits)
  from hasNextPage_trims_overfetch[THEN conjunct1, rule_format, OF conjI[OF c conjI[OF f p]]] len
  have o: "hasNextPage (pageInfo p) \<and> map node (edges p) = butlast found"
    by (auto simp: DEFAULT_PAGE_SIZE_orders_def)
  define found' where "found' = filter (mongo_and [match_all, \<lambda>d. archived d = False])
        (documents few_products)"
  have s': "products_searchFilter literal_RegExp (products_searchQuery (search ?r))
      = Inr (\<lambda>d. archived d = False)"
    by (simp add: products_searchFilter_def products_searchQuery_def truthy_def)
  have c': "products_cursorFilters (afterCursor ?r) = Inr match_all"
    by (simp add: products_cursorFilters_def)
  have len': "length found' = 3" unfolding found'_def by code_simp
  have f': "find_docs few_products (mongo_and [match_all, \<lambda>d. archived d = False])
      (DEFAULT_PAGE_SIZE_products + 1) Unsorted = Inr found'"
    using len' by (simp add: find_docs_def few_products_def apply_sort_def found'_def
        DEFAULT_PAGE_SIZE_products_def)
  have "case products_index literal_RegExp few_products ?r of
          Send p \<Rightarrow> True | SendStatus n \<Rightarrow> False"
    by code_simp
  then obtain p' where p': "products_index literal_RegExp few_products ?r = Send p'"
    by (auto split: response.splits)
  from hasNextPage_trims_overfetch[THEN conjunct2, rule_format,
      OF conjI[OF s' conjI[OF c' conjI[OF f' p']]]] len'
  have o': "\<not> hasNextPage (pageInfo p') \<and> map node (edges p') = found'"
    by (auto simp: DEFAULT_PAGE_SIZE_products_def)
  from f p n len o f' p' len' o' show ?thesis
    by (simp add: orders_searchQuery_def)
qed

text \<open>
  C4. Page size bound: whatever the request and the stored data, a page sent by the
  orders listing has at most 30 edges and a page sent by the products listing at most 29,
  the page sizes the two resolvers configure.
\<close>

theorem page_size_bound:
  "DEFAULT_PAGE_SIZE_orders = 30 \<and> DEFAULT_PAGE_SIZE_products = 29 \<and>
   (orders_index Order req = Send p \<longrightarrow> length (edges p) \<le> DEFAULT_PAGE_SIZE_orders) \<and>
   (products_index RegExp Product req' = Send p' \<longrightarrow>
      length (edges p') \<le> DEFAULT_PAGE_SIZE_products)"
proof (intro conjI impI)
  show "DEFAULT_PAGE_SIZE_orders = 30" by (simp add: DEFAULT_PAGE_SIZE_orders_def)
  show "DEFAULT_PAGE_SIZE_products = 29" by (simp add: DEFAULT_PAGE_SIZE_products_def)
next
  assume "orders_index Order req = Send p"
  from orders_index_SendD[OF this] show "length (edges p) \<le> DEFAULT_PAGE_SIZE_orders"
    by (auto simp: make_page_edges)
next
  assume "products_index RegExp Product req' = Send p'"
  from products_index_SendD[OF this] show "length (edges p') \<le> DEFAULT_PAGE_SIZE_products"
    by (auto simp: make_page_edges)
qed

theorem page_size_bound_witness:
  "(\<exists>p. orders_index many_orders \<lparr>search = None, afterCursor = None\<rparr> = Send p \<and>
        length (edges p) = 30 \<and> length (edges p) \<le> DEFAULT_PAGE_SIZE_orders) \<and>
   (\<exists>p'. products_index literal_RegExp many_products \<lparr>search = Some ''nan'', afterCursor = None\<rparr>
            = Send p' \<and>
        length (edges p') = 29 \<and> length (edges p') \<le> DEFAULT_PAGE_SIZE_products)"
proof -
  have "case orders_index many_orders \<lparr>search = None, afterCursor = None\<rparr> of
          Send p \<Rightarrow> length (edges p) = 30 | SendStatus n \<Rightarrow> False"
    by code_simp
  then obtain p where p: "orders_index many_orders \<lparr>search = None, afterCursor = None\<rparr> = Send p"
      "length (edges p) = 30"
    by (auto split: response.splits)
  have "case products_index literal_RegExp many_products \<lparr>search = Some ''nan'', afterCursor = None\<rparr> of
          Send p \<Rightarrow> length (edges p) = 29 | SendStatus n \<Rightarrow> False"
    by code_simp
  then obtain p' where p': "products_index literal_RegExp many_products
        \<lparr>search = Some ''nan'', afterCursor = None\<rparr> = Send p'"
      "length (edges p') = 29"
    by (auto split: response.splits)
  from page_size_bound[of many_orders "\<lparr>search = None, afterCursor = None\<rparr>" p
      literal_RegExp many_products "\<lparr>search = Some ''nan'', afterCursor = None\<rparr>" p'] p p'
  show ?thesis by simp
qed

text \<open>
  C5. Cursor exclusivity: a page fetched with \<^verbatim>\<open>afterCursor = c\<close> never includes the
  record whose key is the key \<open>c\<close> decodes to. The cursor predicate is strict: every
  edge of the orders listing has a key below the decoded key, every edge of the products
  listing a key above it.
\<close>

theorem cursor_exclusive:
  "(afterCursor req = Some c \<and> decodeCursor c = Inr k \<and> orders_index Order req = Send p \<longrightarrow>
      (\<forall>e\<in>set (edges p). doc_id (node e) < k) \<and>
      k \<notin> set (map (\<lambda>e. doc_id (node e)) (edges p))) \<and>
   (afterCursor req' = Some c' \<and> decodeCursor c' = Inr k' \<and>
    products_index RegExp Product req' = Send p' \<longrightarrow>
      (\<forall>e\<in>set (edges p'). doc_id (node e) > k') \<and>
      k' \<notin> set (map (\<lambda>e. doc_id (node e)) (edges p')))"
proof (intro conjI impI)
  assume a: "afterCursor req = Some c \<and> decodeCursor c = Inr k \<and> orders_index Order req = Send p"
  then have cf: "orders_cursorFilters (afterCursor req) = Inr (\<lambda>d. doc_id d < k)"
    by (simp add: orders_cursorFilters_decoded)
  from a orders_index_SendD[of Order req p] cf
  show lt: "\<forall>e\<in>set (edges p). doc_id (node e) < k"
    by (auto dest!: make_page_edge_nodes in_set_takeD)
  then show "k \<notin> set (map (\<lambda>e. doc_id (node e)) (edges p))" by auto
next
  assume a: "afterCursor req' = Some c' \<and> decodeCursor c' = Inr k' \<and>
    products_index RegExp Product req' = Send p'"
  then have cf: "products_cursorFilters (afterCursor req') = Inr (\<lambda>d. doc_id d > k')"
    by (simp add: products_cursorFilters_decoded)
  from a products_index_SendD[of RegExp Product req' p'] cf
  show gt: "\<forall>e\<in>set (edges p'). doc_id (node e) > k'"
    by (auto dest!: make_page_edge_nodes in_set_takeD)
  then show "k' \<notin> set (map (\<lambda>e. doc_id (node e)) (edges p'))" by auto
qed

theorem cursor_exclusive_witness:
  "(\<exists>p. decodeCursor (encodeCursor (oid 10)) = Inr (oid 10) \<and>
        oid 10 \<in> set (map doc_id (documents many_orders)) \<and>
        orders_index many_orders \<lparr>search = None, afterCursor = Some (encodeCursor (oid 10))\<rparr>
          = Send p \<and>
        map (\<lambda>e. doc_id (node e)) (edges p) = map oid (rev [1..<10]) \<and>
        oid 10 \<notin> set (map (\<lambda>e. doc_id (node e)) (edges p))) \<and>
   (\<exists>p'. decodeCursor (encodeCursor (oid 1)) = Inr (oid 1) \<and>
        oid 1 \<in> set (map doc_id (documents few_products)) \<and>
        products_index literal_RegExp few_products
          \<lparr>search = None, afterCursor = Some (encodeCursor (oid 1))\<rparr> = Send p' \<and>
        map (\<lambda>e. doc_id (node e)) (edges p') = [oid 2, oid 4] \<and>
        oid 1 \<notin> set (map (\<lambda>e. doc_id (node e)) (edges p')))"
proof -
  let ?r = "\<lparr>search = None, afterCursor = Some (encodeCursor (oid 10))\<rparr>"
  let ?r' = "\<lparr>search = None, afterCursor = Some (encodeCursor (oid 1))\<rparr>"
  have d: "decodeCursor (encodeCursor (oid 10)) = Inr (oid 10)" by code_simp
  have m: "oid 10 \<in> set (map doc_id (documents many_orders))" by code_simp
  have "case orders_index many_orders ?r of
          Send p \<Rightarrow> map (\<lambda>e. doc_id (node e)) (edges p) = map oid (rev [1..<10])
        | SendStatus n \<Rightarrow> False"
    by code_simp
  then obtain p where p: "orders_index many_orders ?r = Send p"
      "map (\<lambda>e. doc_id (node e)) (edges p) = map oid (rev [1..<10])"
    by (auto split: response.splits)
  have a: "afterCursor ?r = Some (encodeCursor (oid 10))" by simp
  from cursor_exclusive[THEN conjunct1, rule_format, OF conjI[OF a conjI[OF d p(1)]]]
  have x: "oid 10 \<notin> set (map (\<lambda>e. doc_id (node e)) (edges p))" by simp
  have d': "decodeCursor (encodeCursor (oid 1)) = Inr (oid 1)" by code_simp
  have m': "oid 1 \<in> set (map doc_id (documents few_products))" by code_simp
  have "case products_index literal_RegExp few_products ?r' of
          Send p \<Rightarrow> map (\<lambda>e. doc_id (node e)) (edges p) = [oid 2, oid 4]
        | SendStatus n \<Rightarrow> False"
    by code_simp
  then obtain p' where p': "products_index literal_RegExp few_products ?r' = Send p'"
      "map (\<lambda>e. doc_id (node e)) (edges p') = [oid 2, oid 4]"
    by (auto split: response.splits)
  have a': "afterCursor ?r' = Some (encodeCursor (oid 1))" by simp
  from cursor_exclusive[THEN conjunct2, rule_format, OF conjI[OF a' conjI[OF d' p'(1)]]]
  have x': "oid 1 \<notin> set (map (\<lambda>e. doc_id (node e)) (edges p'))" by simp
  show ?thesis
    by (intro conjI exI[of _ p] exI[of _ p']) (rule d m p x d' m' p' x')+
qed

text \<open>
  C6. Total count independence: \<^verbatim>\<open>totalCount\<close> is the number of stored records that
  satisfy the archived-and-search predicate; the cursor predicate takes no part in it, so
  two requests that differ only in \<^verbatim>\<open>afterCursor\<close> report the same total.
\<close>

theorem totalCount_ignores_cursor:
  "(search req1 = search req2 \<and> orders_index Order req1 = Send p1 \<and>
    orders_index Order req2 = Send p2 \<longrightarrow>
      totalCount p1 = totalCount p2 \<and>
      totalCount p1 = length (filter (orders_searchFilter (orders_searchQuery (search req1)))
                               (documents Order))) \<and>
   (search req1' = search req2' \<and> products_index RegExp Product req1' = Send p1' \<and>
    products_index RegExp Product req2' = Send p2' \<longrightarrow>
      totalCount p1' = totalCount p2' \<and>
      (\<exists>sf. products_searchFilter RegExp (products_searchQuery (search req1')) = Inr sf \<and>
            totalCount p1' = length (filter sf (documents Product))))"
proof (intro conjI impI)
  assume a: "search req1 = search req2 \<and> orders_index Order req1 = Send p1 \<and>
    orders_index Order req2 = Send p2"
  with orders_index_SendD[of Order req1 p1]
  show t1: "totalCount p1 = length (filter (orders_searchFilter (orders_searchQuery (search req1)))
                               (documents Order))"
    by (auto simp: make_page_totalCount)
  from a orders_index_SendD[of Order req2 p2]
  have "totalCount p2 = length (filter (orders_searchFilter (orders_searchQuery (search req1)))
                               (documents Order))"
    by (auto simp: make_page_totalCount)
  with t1 show "totalCount p1 = totalCount p2" by simp
next
  assume a: "search req1' = search req2' \<and> products_index RegExp Product req1' = Send p1' \<and>
    products_index RegExp Product req2' = Send p2'"
  with products_index_SendD[of RegExp Product req1' p1']
  obtain sf where sf: "products_searchFilter RegExp (products_searchQuery (search req1')) = Inr sf"
    and t1: "totalCount p1' = length (filter sf (documents Product))"
    by (auto simp: make_page_totalCount)
  from sf t1 show "\<exists>sf. products_searchFilter RegExp (products_searchQuery (search req1')) = Inr sf \<and>
            totalCount p1' = length (filter sf (documents Product))" by blast
  from a sf products_index_SendD[of RegExp Product req2' p2']
  have "totalCount p2' = length (filter sf (documents Product))"
    by (auto simp: make_page_totalCount)
  with t1 show "totalCount p1' = totalCount p2'" by simp
qed


theorem totalCount_ignores_cursor_witness:
  "(\<exists>p1 p2.
      orders_index many_orders \<lparr>search = Some ''7'', afterCursor = None\<rparr> = Send p1 \<and>
      orders_index many_orders \<lparr>search = Some ''7'', afterCursor = Some (encodeCursor (oid 10))\<rparr>
        = Send p2 \<and>
      length (edges p1) = 30 \<and> length (edges p2) = 9 \<and>
      totalCount p1 = 35 \<and> totalCount p2 = 35 \<and> totalCount p1 = totalCount p2) \<and>
   (\<exists>p1' p2'.
      products_index literal_RegExp few_products \<lparr>search = Some ''nan'', afterCursor = None\<rparr>
        = Send p1' \<and>
      products_index literal_RegExp few_products
        \<lparr>search = Some ''nan'', afterCursor = Some (encodeCursor (oid 1))\<rparr> = Send p2' \<and>
      length (edges p1') = 2 \<and> length (edges p2') = 1 \<and>
      totalCount p1' = 2 \<and> totalCount p1' = totalCount p2')"
proof -
  let ?r1 = "\<lparr>search = Some ''7'', afterCursor = None\<rparr>"
  let ?r2 = "\<lparr>search = Some ''7'', afterCursor = Some (encodeCursor (oid 10))\<rparr>"
  let ?r1' = "\<lparr>search = Some ''nan'', afterCursor = None\<rparr>"
  let ?r2' = "\<lparr>search = Some ''nan'', afterCursor = Some (encodeCursor (oid 1))\<rparr>"
  have "case orders_index many_orders ?r1 of
          Send p \<Rightarrow> length (edges p) = 30 \<and> totalCount p = 35 | SendStatus n \<Rightarrow> False"
    by code_simp
  then obtain p1 where p1: "orders_index many_orders ?r1 = Send p1"
      "length (edges p1) = 30" "totalCount p1 = 35"
    by (auto split: response.splits)
  have "case orders_index many_orders ?r2 of
          Send p \<Rightarrow> length (edges p) = 9 | SendStatus n \<Rightarrow> False"
    by code_simp
  then obtain p2 where p2: "orders_index many_orders ?r2 = Send p2" "length (edges p2) = 9"
    by (auto split: response.splits)
  have s: "search ?r1 = search ?r2" by simp
  from totalCount_ignores_cursor[THEN conjunct1, rule_format, OF conjI[OF s conjI[OF p1(1) p2(1)]]]
  have e: "totalCount p1 = totalCount p2" by simp
  with p1(3) have t2: "totalCount p2 = 35" by simp
  have "case products_index literal_RegExp few_products ?r1' of
          Send p \<Rightarrow> length (edges p) = 2 \<and> totalCount p = 2 | SendStatus n \<Rightarrow> False"
    by code_simp
  then obtain p1' where p1': "products_index literal_RegExp few_products ?r1' = Send p1'"
      "length (edges p1') = 2" "totalCount p1' = 2"
    by (auto split: response.splits)
  have "case products_index literal_RegExp few_products ?r2' of
          Send p \<Rightarrow> length (edges p) = 1 | SendStatus n \<Rightarrow> False"
    by code_simp
  then obtain p2' where p2': "products_index literal_RegExp few_products ?r2' = Send p2'"
      "length (edges p2') = 1"
    by (auto split: response.splits)
  have s': "search ?r1' = search ?r2'" by simp
  from totalCount_ignores_cursor[THEN conjunct2, rule_format,
      OF conjI[OF s' conjI[OF p1'(1) p2'(1)]]]
  have e': "totalCount p1' = totalCount p2'" by simp
  show ?thesis
    by (intro conjI exI[of _ p1] exI[of _ p2] exI[of _ p1'] exI[of _ p2'])
      (rule p1 p2 e t2 p1' p2' e')+
qed

text \<open>
  C7. Cursor codec: decoding the encoding of a valid key gives the key back, and decoding
  any string that is not the encoding of a valid key, the empty string among them, fails
  with InvalidCursor. Stated of the codec modelled from the spec.
\<close>

theorem cursor_codec_roundtrip_strict:
  "(is_object_id k \<longrightarrow> decodeCursor (encodeCursor k) = Inr k) \<and>
   ((\<forall>k. is_object_id k \<longrightarrow> c \<noteq> encodeCursor k) \<longrightarrow> decodeCursor c = Inl InvalidCursor) \<and>
   decodeCursor [] = Inl InvalidCursor"
proof (intro conjI impI)
  assume "is_object_id k"
  then show "decodeCursor (encodeCursor k) = Inr k" by (rule decodeCursor_encodeCursor)
next
  assume none: "\<forall>k. is_object_id k \<longrightarrow> c \<noteq> encodeCursor k"
  show "decodeCursor c = Inl InvalidCursor"
  proof (cases "decodeCursor c")
    case (Inl e)
    then show ?thesis using decodeCursor_Inl by blast
  next
    case (Inr k)
    from decodeCursor_InrD[OF this] none show ?thesis by blast
  qed
next
  show "decodeCursor [] = Inl InvalidCursor" by (rule decodeCursor_Nil)
qed

theorem cursor_codec_roundtrip_strict_witness:
  "is_object_id (oid 300) \<and>
   encodeCursor (oid 300) = ''MDAwMDAwMDAwMDAwMDAwMDAwMDAwMTJj'' \<and>
   decodeCursor (encodeCursor (oid 300)) = Inr (oid 300) \<and>
   decodeCursor ''not-a-valid-cursor'' = Inl InvalidCursor \<and>
   base64_decode ''aGVsbG8='' = Some ''hello'' \<and>
   decodeCursor ''aGVsbG8='' = Inl InvalidCursor"
proof -
  have v: "is_object_id (oid 300)" by code_simp
  have e: "encodeCursor (oid 300) = ''MDAwMDAwMDAwMDAwMDAwMDAwMDAwMTJj''" by code_simp
  from cursor_codec_roundtrip_strict[THEN conjunct1, rule_format, OF v]
  have r: "decodeCursor (encodeCursor (oid 300)) = Inr (oid 300)" .
  have n: "base64_decode ''not-a-valid-cursor'' = None" by code_simp
  have "\<forall>k. is_object_id k \<longrightarrow> ''not-a-valid-cursor'' \<noteq> encodeCursor k"
  proof (intro allI impI notI)
    fix k assume "''not-a-valid-cursor'' = encodeCursor k"
    then have "base64_decode ''not-a-valid-cursor'' = Some k"
      by (simp add: encodeCursor_def base64_decode_encode)
    with n show False by simp
  qed
  from cursor_codec_roundtrip_strict[THEN conjunct2, THEN conjunct1, THEN mp, OF this]
  have a: "decodeCursor ''not-a-valid-cursor'' = Inl InvalidCursor" .
  have h: "base64_decode ''aGVsbG8='' = Some ''hello''" by code_simp
  have nk: "\<not> is_object_id ''hello''" by code_simp
  have "\<forall>k. is_object_id k \<longrightarrow> ''aGVsbG8='' \<noteq> encodeCursor k"
  proof (intro allI impI notI)
    fix k assume k: "is_object_id k" and "''aGVsbG8='' = encodeCursor k"
    then have "base64_decode ''aGVsbG8='' = Some k"
      by (simp add: encodeCursor_def base64_decode_encode)
    with h have "k = ''hello''" by simp
    with k nk show False by simp
  qed
  from cursor_codec_roundtrip_strict[THEN conjunct2, THEN conjunct1, THEN mp, OF this]
  have s: "decodeCursor ''aGVsbG8='' = Inl InvalidCursor" .
  show ?thesis
    by (intro conjI) (rule v e r a h s)+
qed

text \<open>
  C8. Absent or empty cursor: when \<^verbatim>\<open>afterCursor\<close> is absent or the empty string, the
  cursor is not decoded (the empty string does not decode, yet the request succeeds) and
  no positional constraint is added: the response is that of the request without
  \<^verbatim>\<open>afterCursor\<close>, and when the store answers (and, for products, the search pattern
  compiles) it is the first page under the archived-and-search predicate alone.
\<close>

theorem empty_cursor_is_first_page:
  "decodeCursor [] = Inl InvalidCursor \<and>
   (afterCursor req = None \<or> afterCursor req = Some [] \<longrightarrow>
      orders_cursorFilters (afterCursor req) = Inr match_all \<and>
      orders_index Order req = orders_index Order (req\<lparr>afterCursor := None\<rparr>) \<and>
      (available Order \<longrightarrow>
        (\<exists>p. orders_index Order req = Send p \<and>
           map node (edges p) = take DEFAULT_PAGE_SIZE_orders (rev (sort_key doc_id
             (filter (orders_searchFilter (orders_searchQuery (search req))) (documents Order)))) \<and>
           totalCount p = length
             (filter (orders_searchFilter (orders_searchQuery (search req))) (documents Order))))) \<and>
   (afterCursor req' = None \<or> afterCursor req' = Some [] \<longrightarrow>
      products_cursorFilters (afterCursor req') = Inr match_all \<and>
      products_index RegExp Product req' = products_index RegExp Product (req'\<lparr>afterCursor := None\<rparr>) \<and>
      (available Product \<and>
       products_searchFilter RegExp (products_searchQuery (search req')) = Inr sf \<longrightarrow>
        (\<exists>p. products_index RegExp Product req' = Send p \<and>
           map node (edges p) = take DEFAULT_PAGE_SIZE_products (filter sf (documents Product)) \<and>
           totalCount p = length (filter sf (documents Product)))))"
proof (intro conjI impI)
  show "decodeCursor [] = Inl InvalidCursor" by (rule decodeCursor_Nil)
next
  assume a: "afterCursor req = None \<or> afterCursor req = Some []"
  then show c: "orders_cursorFilters (afterCursor req) = Inr match_all"
    by (rule orders_cursorFilters_empty)
  show "orders_index Order req = orders_index Order (req\<lparr>afterCursor := None\<rparr>)"
    by (simp add: orders_index_unfold c orders_cursorFilters_None split: sum.splits)
  assume "available Order"
  then show "\<exists>p. orders_index Order req = Send p \<and>
           map node (edges p) = take DEFAULT_PAGE_SIZE_orders (rev (sort_key doc_id
             (filter (orders_searchFilter (orders_searchQuery (search req))) (documents Order)))) \<and>
           totalCount p = length
             (filter (orders_searchFilter (orders_searchQuery (search req))) (documents Order))"
    by (simp add: orders_index_unfold c available_def match_all_def make_page_nodes
        make_page_totalCount)
next
  assume a: "afterCursor req' = None \<or> afterCursor req' = Some []"
  then show c: "products_cursorFilters (afterCursor req') = Inr match_all"
    by (rule products_cursorFilters_empty)
  have n: "products_cursorFilters None = Inr match_all"
    by (simp add: products_cursorFilters_def)
  show "products_index RegExp Product req' = products_index RegExp Product (req'\<lparr>afterCursor := None\<rparr>)"
    by (simp add: products_index_unfold c n split: sum.splits)
  assume "available Product \<and>
       products_searchFilter RegExp (products_searchQuery (search req')) = Inr sf"
  then show "\<exists>p. products_index RegExp Product req' = Send p \<and>
           map node (edges p) = take DEFAULT_PAGE_SIZE_products (filter sf (documents Product)) \<and>
           totalCount p = length (filter sf (documents Product))"
    by (simp add: products_index_unfold c available_def match_all_def make_page_nodes
        make_page_totalCount)
qed

theorem empty_cursor_is_first_page_witness:
  "decodeCursor [] = Inl InvalidCursor \<and>
   orders_index few_orders \<lparr>search = None, afterCursor = Some []\<rparr>
     = orders_index few_orders \<lparr>search = None, afterCursor = None\<rparr> \<and>
   (\<exists>p. orders_index few_orders \<lparr>search = None, afterCursor = Some []\<rparr> = Send p \<and>
        map (\<lambda>e. doc_id (node e)) (edges p) = [oid 5, oid 4, oid 3, oid 1] \<and> totalCount p = 4) \<and>
   products_index literal_RegExp few_products \<lparr>search = Some ''nan'', afterCursor = Some []\<rparr>
     = products_index literal_RegExp few_products \<lparr>search = Some ''nan'', afterCursor = None\<rparr> \<and>
   (\<exists>p'. products_index literal_RegExp few_products \<lparr>search = Some ''nan'', afterCursor = Some []\<rparr>
           = Send p' \<and>
        map (\<lambda>e. doc_id (node e)) (edges p') = [oid 1, oid 4] \<and> totalCount p' = 2)"
proof -
  let ?r = "\<lparr>search = None, afterCursor = Some []\<rparr>"
  let ?r' = "\<lparr>search = Some ''nan'', afterCursor = Some []\<rparr>"
  have a: "afterCursor ?r = None \<or> afterCursor ?r = Some []" by simp
  have a': "afterCursor ?r' = None \<or> afterCursor ?r' = Some []" by simp
  have d: "decodeCursor [] = Inl InvalidCursor"
    by (rule empty_cursor_is_first_page[THEN conjunct1])
  note t = empty_cursor_is_first_page[THEN conjunct2, THEN conjunct1, rule_format, OF a,
      of few_orders]
  have e: "orders_index few_orders ?r = orders_index few_orders (?r\<lparr>afterCursor := None\<rparr>)"
    by (rule t[THEN conjunct2, THEN conjunct1])
  have av: "available few_orders" by (simp add: available_def few_orders_def)
  from t[THEN conjunct2, THEN conjunct2, rule_format, OF av]
  obtain p where p: "orders_index few_orders ?r = Send p"
    "map node (edges p) = take DEFAULT_PAGE_SIZE_orders (rev (sort_key doc_id
       (filter (orders_searchFilter (orders_searchQuery (search ?r))) (documents few_orders))))"
    "totalCount p = length
       (filter (orders_searchFilter (orders_searchQuery (search ?r))) (documents few_orders))"
    by blast
  have "map doc_id (take DEFAULT_PAGE_SIZE_orders (rev (sort_key doc_id
       (filter (orders_searchFilter (orders_searchQuery (search ?r))) (documents few_orders)))))
       = [oid 5, oid 4, oid 3, oid 1]"
    by code_simp
  with arg_cong[OF p(2), of "map doc_id"]
  have ids: "map (\<lambda>e. doc_id (node e)) (edges p) = [oid 5, oid 4, oid 3, oid 1]"
    by (simp add: comp_def)
  have "length (filter (orders_searchFilter (orders_searchQuery (search ?r)))
      (documents few_orders)) = 4"
    by code_simp
  with p(3) have cnt: "totalCount p = 4" by simp
  define sf :: "product_doc query" where "sf = (\<lambda>d. archived d = False \<and>
     list_ex (\<lambda>i. take (length ''nan'') (drop i (description d)) = ''nan'')
       [0..<Suc (length (description d))])"
  have sf: "products_searchFilter literal_RegExp (products_searchQuery (search ?r')) = Inr sf"
    by (simp add: products_searchFilter_def products_searchQuery_def literal_RegExp_def
        truthy_def sf_def)
  have av': "available few_products" by (simp add: available_def few_products_def)
  note u = empty_cursor_is_first_page[THEN conjunct2, THEN conjunct2, rule_format, OF a',
      of literal_RegExp few_products]
  have e': "products_index literal_RegExp few_products ?r'
      = products_index literal_RegExp few_products (?r'\<lparr>afterCursor := None\<rparr>)"
    by (rule u[THEN conjunct2, THEN conjunct1])
  from u[THEN conjunct2, THEN conjunct2, rule_format, OF conjI[OF av' sf]]
  obtain p' where p': "products_index literal_RegExp few_products ?r' = Send p'"
    "map node (edges p') = take DEFAULT_PAGE_SIZE_products (filter sf (documents few_products))"
    "totalCount p' = length (filter sf (documents few_products))"
    by blast
  have "map doc_id (take DEFAULT_PAGE_SIZE_products (filter sf (documents few_products)))
       = [oid 1, oid 4]"
    unfolding sf_def by code_simp
  with arg_cong[OF p'(2), of "map doc_id"]
  have ids': "map (\<lambda>e. doc_id (node e)) (edges p') = [oid 1, oid 4]"
    by (simp add: comp_def)
  have "length (filter sf (documents few_products)) = 2"
    unfolding sf_def by code_simp
  with p'(3) have cnt': "totalCount p' = 2" by simp
  have e2: "orders_index few_orders ?r
      = orders_index few_orders \<lparr>search = None, afterCursor = None\<rparr>"
    using e by simp
  have e2': "products_index literal_RegExp few_products ?r'
      = products_index literal_RegExp few_products \<lparr>search = Some ''nan'', afterCursor = None\<rparr>"
    using e' by simp
  show ?thesis
    by (intro conjI exI[of _ p] exI[of _ p']) (rule d e2 p(1) ids cnt e2' p'(1) ids' cnt')+
qed

text \<open>
  C9. Failures: a request whose cursor does not decode, or whose find or count call
  fails (for products also one whose search pattern does not compile), is answered with
  status 422 and nothing else, and these are the only requests answered with a status.
  Every other response is a whole page: edges, a page info that agrees with the edges,
  and the total count; no response carries part of a page.
\<close>

theorem failure_sends_422_only:
  "(orders_index Order req = SendStatus 422 \<longleftrightarrow>
      (\<exists>c e. afterCursor req = Some c \<and> c \<noteq> [] \<and> decodeCursor c = Inl e) \<or>
      find_fails Order \<or> count_fails Order) \<and>
   (orders_index Order req = SendStatus 422 \<or>
      (\<exists>p. orders_index Order req = Send p \<and> consistent_page p \<and>
          totalCount p = length
            (filter (orders_searchFilter (orders_searchQuery (search req))) (documents Order)))) \<and>
   (products_index RegExp Product req' = SendStatus 422 \<longleftrightarrow>
      (\<exists>e. products_searchFilter RegExp (products_searchQuery (search req')) = Inl e) \<or>
      (\<exists>c e. afterCursor req' = Some c \<and> c \<noteq> [] \<and> decodeCursor c = Inl e) \<or>
      find_fails Product \<or> count_fails Product) \<and>
   (products_index RegExp Product req' = SendStatus 422 \<or>
      (\<exists>p sf. products_index RegExp Product req' = Send p \<and> consistent_page p \<and>
          products_searchFilter RegExp (products_searchQuery (search req')) = Inr sf \<and>
          totalCount p = length (filter sf (documents Product))))"
proof (intro conjI)
  show "orders_index Order req = SendStatus 422 \<longleftrightarrow>
      (\<exists>c e. afterCursor req = Some c \<and> c \<noteq> [] \<and> decodeCursor c = Inl e) \<or>
      find_fails Order \<or> count_fails Order"
    unfolding orders_cursorFilters_Inl_iff[symmetric]
    by (auto simp: orders_index_unfold split: sum.splits)
  show "orders_index Order req = SendStatus 422 \<or>
      (\<exists>p. orders_index Order req = Send p \<and> consistent_page p \<and>
          totalCount p = length
            (filter (orders_searchFilter (orders_searchQuery (search req))) (documents Order)))"
    by (auto simp: orders_index_unfold consistent_make_page make_page_totalCount split: sum.splits)
  show "products_index RegExp Product req' = SendStatus 422 \<longleftrightarrow>
      (\<exists>e. products_searchFilter RegExp (products_searchQuery (search req')) = Inl e) \<or>
      (\<exists>c e. afterCursor req' = Some c \<and> c \<noteq> [] \<and> decodeCursor c = Inl e) \<or>
      find_fails Product \<or> count_fails Product"
    unfolding products_cursorFilters_Inl_iff[symmetric]
    by (auto simp: products_index_unfold split: sum.splits)
  show "products_index RegExp Product req' = SendStatus 422 \<or>
      (\<exists>p sf. products_index RegExp Product req' = Send p \<and> consistent_page p \<and>
          products_searchFilter RegExp (products_searchQuery (search req')) = Inr sf \<and>
          totalCount p = length (filter sf (documents Product)))"
    by (auto simp: products_index_unfold consistent_make_page make_page_totalCount
        split: sum.splits)
qed


theorem failure_sends_422_only_witness:
  "decodeCursor ''not-a-valid-cursor'' = Inl InvalidCursor \<and>
   orders_index few_orders \<lparr>search = None, afterCursor = Some ''not-a-valid-cursor''\<rparr>
     = SendStatus 422 \<and>
   orders_index (few_orders\<lparr>find_fails := True\<rparr>) \<lparr>search = None, afterCursor = None\<rparr>
     = SendStatus 422 \<and>
   orders_index (few_orders\<lparr>count_fails := True\<rparr>) \<lparr>search = None, afterCursor = None\<rparr>
     = SendStatus 422 \<and>
   (\<exists>p. orders_index few_orders \<lparr>search = None, afterCursor = None\<rparr> = Send p \<and>
        consistent_page p \<and> totalCount p = 4) \<and>
   products_index literal_RegExp few_products \<lparr>search = Some ''('', afterCursor = None\<rparr>
     = SendStatus 422 \<and>
   products_index literal_RegExp few_products
       \<lparr>search = None, afterCursor = Some ''not-a-valid-cursor''\<rparr> = SendStatus 422 \<and>
   products_index literal_RegExp (few_products\<lparr>count_fails := True\<rparr>)
       \<lparr>search = None, afterCursor = None\<rparr> = SendStatus 422 \<and>
   (\<exists>p'. products_index literal_RegExp few_products \<lparr>search = None, afterCursor = None\<rparr>
          = Send p' \<and> consistent_page p' \<and> totalCount p' = 3)"
proof -
  let ?bad = "\<lparr>search = None, afterCursor = Some ''not-a-valid-cursor''\<rparr>"
  let ?ok = "\<lparr>search = None, afterCursor = None\<rparr>"
  let ?paren = "\<lparr>search = Some ''('', afterCursor = None\<rparr>"
  note o = failure_sends_422_only[THEN conjunct1]
  note oc = failure_sends_422_only[THEN conjunct2, THEN conjunct1]
  note q = failure_sends_422_only[THEN conjunct2, THEN conjunct2, THEN conjunct1]
  note qc = failure_sends_422_only[THEN conjunct2, THEN conjunct2, THEN conjunct2]
  have d: "decodeCursor ''not-a-valid-cursor'' = Inl InvalidCursor" by code_simp
  have 1: "orders_index few_orders ?bad = SendStatus 422"
    using o[of few_orders ?bad] d by auto
  have 2: "orders_index (few_orders\<lparr>find_fails := True\<rparr>) ?ok = SendStatus 422"
    using o[of "few_orders\<lparr>find_fails := True\<rparr>" ?ok] by simp
  have 3: "orders_index (few_orders\<lparr>count_fails := True\<rparr>) ?ok = SendStatus 422"
    using o[of "few_orders\<lparr>count_fails := True\<rparr>" ?ok] by simp
  have "orders_index few_orders ?ok \<noteq> SendStatus 422"
    using o[of few_orders ?ok] by (simp add: few_orders_def)
  with oc[of few_orders ?ok] obtain p where p: "orders_index few_orders ?ok = Send p"
    "consistent_page p"
    "totalCount p = length
            (filter (orders_searchFilter (orders_searchQuery (search ?ok))) (documents few_orders))"
    by auto
  have "length (filter (orders_searchFilter (orders_searchQuery (search ?ok)))
     (documents few_orders)) = 4"
    by code_simp
  with p(3) have cnt: "totalCount p = 4" by simp
  have re: "products_searchFilter literal_RegExp (products_searchQuery (search ?paren))
     = Inl RegExpSyntaxError"
    by (simp add: products_searchFilter_def products_searchQuery_def literal_RegExp_def truthy_def)
  have 4: "products_index literal_RegExp few_products ?paren = SendStatus 422"
    using q[of literal_RegExp few_products ?paren] re by simp
  have 5: "products_index literal_RegExp few_products ?bad = SendStatus 422"
    using q[of literal_RegExp few_products ?bad] d by auto
  have 6: "products_index literal_RegExp (few_products\<lparr>count_fails := True\<rparr>) ?ok = SendStatus 422"
    using q[of literal_RegExp "few_products\<lparr>count_fails := True\<rparr>" ?ok] by simp
  have sf: "products_searchFilter literal_RegExp (products_searchQuery (search ?ok))
     = Inr (\<lambda>d. archived d = False)"
    by (simp add: products_searchFilter_def products_searchQuery_def truthy_def)
  have "products_index literal_RegExp few_products ?ok \<noteq> SendStatus 422"
    using q[of literal_RegExp few_products ?ok] sf by (simp add: few_products_def)
  with qc[of literal_RegExp few_products ?ok] sf obtain p' where
    p': "products_index literal_RegExp few_products ?ok = Send p'" "consistent_page p'"
    "totalCount p' = length (filter (\<lambda>d. archived d = False) (documents few_products))"
    by auto
  have "length (filter (\<lambda>d. archived d = False) (documents few_products)) = 3"
    by code_simp
  with p'(3) have cnt': "totalCount p' = 3" by simp
  show ?thesis
    by (intro conjI exI[of _ p] exI[of _ p']) (rule d 1 2 3 p cnt 4 5 6 p' cnt')+
qed

text \<open>
  C10. Unparsable order search: when the \<^verbatim>\<open>search\<close> parameter of an orders request
  parses to NaN (no leading integer) or to 0, the batch predicate is left out: the search
  filter is \<^verbatim>\<open>archived = false\<close> alone and the response, total count included, is
  that of the same request without a search term.
\<close>

theorem unparsable_search_is_dropped:
  "search req = Some s \<and> (parseInt s = NaN \<or> parseInt s = Num 0) \<longrightarrow>
     orders_searchFilter (orders_searchQuery (search req)) = (\<lambda>d. archived d = False) \<and>
     orders_searchFilter (orders_searchQuery None) = (\<lambda>d. archived d = False) \<and>
     orders_index Order req = orders_index Order (req\<lparr>search := None\<rparr>)"
proof (intro impI)
  assume a: "search req = Some s \<and> (parseInt s = NaN \<or> parseInt s = Num 0)"
  have n: "orders_searchFilter (orders_searchQuery None) = (\<lambda>d. archived d = False)"
    by (simp add: orders_searchFilter_def orders_searchQuery_def)
  from a have f: "orders_searchFilter (orders_searchQuery (search req)) = (\<lambda>d. archived d = False)"
    by (auto simp: orders_searchFilter_def orders_searchQuery_def)
  have "orders_index Order req = orders_index Order (req\<lparr>search := None\<rparr>)"
    by (simp add: orders_index_unfold f n split: sum.splits)
  with f n show "orders_searchFilter (orders_searchQuery (search req)) = (\<lambda>d. archived d = False) \<and>
     orders_searchFilter (orders_searchQuery None) = (\<lambda>d. archived d = False) \<and>
     orders_index Order req = orders_index Order (req\<lparr>search := None\<rparr>)"
    by simp
qed

theorem unparsable_search_is_dropped_witness:
  "parseInt ''abc'' = NaN \<and> parseInt ''0'' = Num 0 \<and> parseInt ''8'' = Num 8 \<and>
   orders_index few_orders \<lparr>search = Some ''abc'', afterCursor = None\<rparr>
     = orders_index few_orders \<lparr>search = None, afterCursor = None\<rparr> \<and>
   orders_index few_orders \<lparr>search = Some ''0'', afterCursor = None\<rparr>
     = orders_index few_orders \<lparr>search = None, afterCursor = None\<rparr> \<and>
   (\<exists>p q. orders_index few_orders \<lparr>search = Some ''abc'', afterCursor = None\<rparr> = Send p \<and>
      totalCount p = 4 \<and> map (\<lambda>e. doc_id (node e)) (edges p) = [oid 5, oid 4, oid 3, oid 1] \<and>
      orders_index few_orders \<lparr>search = Some ''8'', afterCursor = None\<rparr> = Send q \<and>
      totalCount q = 1)"
proof -
  have a: "parseInt ''abc'' = NaN" by code_simp
  have z: "parseInt ''0'' = Num 0" by code_simp
  have e: "parseInt ''8'' = Num 8" by code_simp
  have sa: "search \<lparr>search = Some ''abc'', afterCursor = None\<rparr> = Some ''abc''" by simp
  have sz: "search \<lparr>search = Some ''0'', afterCursor = None\<rparr> = Some ''0''" by simp
  from unparsable_search_is_dropped[rule_format, OF conjI[OF sa disjI1[OF a]], of few_orders]
  have ra: "orders_index few_orders \<lparr>search = Some ''abc'', afterCursor = None\<rparr>
     = orders_index few_orders \<lparr>search = None, afterCursor = None\<rparr>" by simp
  from unparsable_search_is_dropped[rule_format, OF conjI[OF sz disjI2[OF z]], of few_orders]
  have rz: "orders_index few_orders \<lparr>search = Some ''0'', afterCursor = None\<rparr>
     = orders_index few_orders \<lparr>search = None, afterCursor = None\<rparr>" by simp
  have "case orders_index few_orders \<lparr>search = None, afterCursor = None\<rparr> of
          Send p \<Rightarrow> totalCount p = 4 \<and>
            map (\<lambda>e. doc_id (node e)) (edges p) = [oid 5, oid 4, oid 3, oid 1]
        | SendStatus n \<Rightarrow> False"
    by code_simp
  with ra obtain p where p: "orders_index few_orders \<lparr>search = Some ''abc'', afterCursor = None\<rparr> = Send p"
     "totalCount p = 4" "map (\<lambda>e. doc_id (node e)) (edges p) = [oid 5, oid 4, oid 3, oid 1]"
    by (auto split: response.splits)
  have "case orders_index few_orders \<lparr>search = Some ''8'', afterCursor = None\<rparr> of
          Send p \<Rightarrow> totalCount p = 1 | SendStatus n \<Rightarrow> False"
    by code_simp
  then obtain q where q: "orders_index few_orders \<lparr>search = Some ''8'', afterCursor = None\<rparr> = Send q"
     "totalCount q = 1"
    by (auto split: response.splits)
  show ?thesis
    by (intro conjI exI[of _ p] exI[of _ q]) (rule a z e ra rz p q)+
qed

end
